theory Spec2Isabelle
  imports Main
begin

section \<open>The circular buffer (circular\_buffer.c)\<close>

text \<open>
  C \<open>int\<close> values are modelled as \<open>int\<close>: every index stays below the buffer size
  and every counter below \<open>MAX_CLIENTS\<close>, so no operation of the model can overflow.
  A \<open>char\<close> is a byte, Isabelle's \<open>char\<close>.

  \<open>c_mod\<close> is C99's \<open>%\<close>, which truncates towards zero. On a non-negative left
  operand and a positive right operand it is \<open>mod\<close>.
\<close>

definition c_mod :: "int \<Rightarrow> int \<Rightarrow> int" where
  "c_mod a b = (if 0 \<le> a then a mod \<bar>b\<bar> else - ((- a) mod \<bar>b\<bar>))"

text \<open>
  \<open>struct Circbuf\<close>. The field \<open>size\<close> is named \<open>size_cb\<close> here (\<open>size\<close> is a
  HOL constant). \<open>buf\<close> is the block of \<open>size\<close> bytes that \<open>buf\<close> points to.
\<close>

record Circbuf =
  buf :: "char list"
  write_idx :: int
  read_idx :: int
  size_cb :: int

text \<open>
  \<open>circbuf_alloc\<close>: \<open>malloc\<close> leaves the block's content indeterminate, so the
  content \<open>mem\<close> of the fresh block is a parameter.
\<close>

definition circbuf_alloc :: "char list \<Rightarrow> int \<Rightarrow> Circbuf" where
  "circbuf_alloc mem sz = \<lparr>buf = mem, write_idx = 0, read_idx = 0, size_cb = sz\<rparr>"

text \<open>\<open>circbuf_push\<close> returns the C return value and the buffer after the call.\<close>

definition circbuf_push :: "Circbuf \<Rightarrow> char \<Rightarrow> int \<times> Circbuf" where
  "circbuf_push cb data =
     (if c_mod (write_idx cb + 1) (size_cb cb) = read_idx cb then (0, cb)
      else (1, cb\<lparr>buf := (buf cb)[nat (write_idx cb) := data],
                  write_idx := c_mod (write_idx cb + 1) (size_cb cb)\<rparr>))"

text \<open>
  \<open>circbuf_pop cb d\<close>: \<open>d\<close> is the byte that \<open>*data\<close> holds before the call; the
  result is the C return value, the buffer and \<open>*data\<close> after the call.
\<close>

definition circbuf_pop :: "Circbuf \<Rightarrow> char \<Rightarrow> int \<times> Circbuf \<times> char" where
  "circbuf_pop cb d =
     (if read_idx cb = write_idx cb then (0, cb, d)
      else (1, cb\<lparr>read_idx := c_mod (read_idx cb + 1) (size_cb cb)\<rparr>,
            buf cb ! nat (read_idx cb)))"

text \<open>
  The \<open>for\<close> loop of \<open>circbuf_push_from_linear\<close>, from the value \<open>i\<close> of its counter.
  \<open>src\<close> holds at least \<open>n\<close> bytes.
\<close>

function push_loop :: "Circbuf \<Rightarrow> char list \<Rightarrow> int \<Rightarrow> int \<Rightarrow> int \<times> Circbuf" where
  "push_loop cb src n i =
     (if i < n \<and> i < size_cb cb - 1 then
        (case circbuf_push cb (src ! nat i) of
           (r, cb') \<Rightarrow> if r = 0 then (i, cb') else push_loop cb' src n (i + 1))
      else (i, cb))"
  by pat_completeness auto
termination
  by (relation "measure (\<lambda>(cb, src, n, i). nat (n - i))") auto

definition circbuf_push_from_linear :: "Circbuf \<Rightarrow> char list \<Rightarrow> int \<Rightarrow> int \<times> Circbuf" where
  "circbuf_push_from_linear cb src n = push_loop cb src n 0"

text \<open>
  The \<open>for\<close> loop of \<open>circbuf_pop_to_linear\<close>. \<open>dest\<close> is the destination array,
  of at least \<open>n\<close> bytes; the result is the return value, the array and the buffer.
\<close>

function pop_loop :: "char list \<Rightarrow> Circbuf \<Rightarrow> int \<Rightarrow> int \<Rightarrow> int \<times> char list \<times> Circbuf" where
  "pop_loop dest cb n i =
     (if i < n then
        (case circbuf_pop cb (dest ! nat i) of
           (r, cb', d) \<Rightarrow>
             if r = 0 then (i, dest[nat i := d], cb')
             else pop_loop (dest[nat i := d]) cb' n (i + 1))
      else (i, dest, cb))"
  by pat_completeness auto
termination
  by (relation "measure (\<lambda>(dest, cb, n, i). nat (n - i))") auto

definition circbuf_pop_to_linear :: "char list \<Rightarrow> Circbuf \<Rightarrow> int \<Rightarrow> int \<times> char list \<times> Circbuf" where
  "circbuf_pop_to_linear dest cb n = pop_loop dest cb n 0"

definition circbuf_empty :: "Circbuf \<Rightarrow> Circbuf" where
  "circbuf_empty cb = cb\<lparr>read_idx := write_idx cb\<rparr>"

definition circbuf_len :: "Circbuf \<Rightarrow> int" where
  "circbuf_len cb =
     (if write_idx cb = read_idx cb then 0
      else if write_idx cb > read_idx cb then write_idx cb - read_idx cb
      else write_idx cb - read_idx cb + size_cb cb)"

definition circbuf_size :: "Circbuf \<Rightarrow> int" where
  "circbuf_size cb = size_cb cb"

definition circbuf_space_left :: "Circbuf \<Rightarrow> int" where
  "circbuf_space_left cb = size_cb cb - 1 - circbuf_len cb"

text \<open>
  A well-formed buffer: a positive size, a block of that many bytes, and both indices
  inside the block. \<open>circbuf_alloc\<close> with a positive size gives such a buffer and every
  operation keeps it. With \<open>size = 0\<close> the remainder in \<open>circbuf_push\<close> is undefined
  in C, so the theorems below are about well-formed buffers.
\<close>

definition cb_wf :: "Circbuf \<Rightarrow> bool" where
  "cb_wf cb \<longleftrightarrow>
     0 < size_cb cb \<and> length (buf cb) = nat (size_cb cb) \<and>
     0 \<le> write_idx cb \<and> write_idx cb < size_cb cb \<and>
     0 \<le> read_idx cb \<and> read_idx cb < size_cb cb"

text \<open>The bytes stored in the buffer, oldest first.\<close>

definition contents :: "Circbuf \<Rightarrow> char list" where
  "contents cb =
     map (\<lambda>k. buf cb ! nat ((read_idx cb + int k) mod size_cb cb)) [0..<nat (circbuf_len cb)]"

text \<open>The buffer after \<open>k\<close> bytes have been popped from it.\<close>

definition cb_drop :: "nat \<Rightarrow> Circbuf \<Rightarrow> Circbuf" where
  "cb_drop k cb = cb\<lparr>read_idx := (read_idx cb + int k) mod size_cb cb\<rparr>"

section \<open>The chat server (smallchat-server.c)\<close>

definition MAX_CLIENTS :: int where
  "MAX_CLIENTS = 1000"

definition READBUF_SIZE :: int where
  "READBUF_SIZE = 128"

definition MSG_SEP :: char where
  "MSG_SEP = CHR 0x0A"

abbreviation NUL :: char where
  "NUL \<equiv> CHR 0x00"

text \<open>
  What stops the program: an access outside an array (undefined in C), a failed
  \<open>assert\<close>, and the use of a \<open>NULL\<close> client pointer.
\<close>

datatype fault = OutOfBounds | AssertFail | NullPointer

definition bindF :: "fault + 'a \<Rightarrow> ('a \<Rightarrow> fault + 'b) \<Rightarrow> fault + 'b" where
  "bindF m f = (case m of Inl e \<Rightarrow> Inl e | Inr x \<Rightarrow> f x)"

text \<open>
  \<open>struct client\<close>. \<open>nick\<close> is the nickname as a C string, without its terminator.
\<close>

record client =
  fd :: int
  nick :: string
  read_cb :: Circbuf

text \<open>
  \<open>struct chatState\<close>. \<open>clients\<close> is the array of \<open>MAX_CLIENTS\<close> pointers, a
  \<open>NULL\<close> pointer being \<open>None\<close>; the slots are the indices from \<open>0\<close> to
  \<open>MAX_CLIENTS - 1\<close>.
\<close>

record chatState =
  serversock :: int
  numclients :: int
  maxclient :: int
  clients :: "int \<Rightarrow> client option"

text \<open>The conversion \<open>%d\<close> of \<open>snprintf\<close>.\<close>

function dec_digits :: "nat \<Rightarrow> string" where
  "dec_digits n =
     (if n < 10 then [char_of (48 + n)]
      else dec_digits (n div 10) @ [char_of (48 + n mod 10)])"
  by pat_completeness auto
termination
  by (relation "measure (\<lambda>n. n)") auto

definition fmt_d :: "int \<Rightarrow> string" where
  "fmt_d i = (if i < 0 then CHR ''-'' # dec_digits (nat (- i)) else dec_digits (nat i))"

text \<open>
  \<open>createClient\<close>. \<open>chatMalloc\<close> and \<open>socketSetNonBlockNoDelay\<close> are in chatlib.c,
  which is not among the sources: the first gives a block of the size asked for, whose
  content is a parameter here, the second does not touch the chat state.

  \<open>nick_mem\<close> is the content of memory at the address that \<open>chatMalloc\<close> returns for
  the nickname: the block of \<open>nicklen + 1\<close> bytes and the bytes after it.
  \<open>createClient\<close> copies the \<open>nicklen\<close> bytes of \<open>user:<fd>\<close> over the start of the
  block and writes no terminator. So the nickname, read as a C string, is the copied
  text followed by the bytes of \<open>nick_mem\<close> from the last byte of the block up to the
  first zero byte; it is \<open>user:<fd>\<close> when the last byte of the block is zero. The
  text \<open>user:<fd>\<close> has at most 16 bytes, so it fits the 32 bytes of the local array.

  \<open>mem\<close> is the content of the block that \<open>circbuf_alloc\<close> obtains. A descriptor
  outside the array is an access out of bounds; an occupied slot fails the
  \<open>assert\<close>. The result is the new client and the state.
\<close>

definition createClient :: "chatState \<Rightarrow> int \<Rightarrow> char list \<Rightarrow> char list \<Rightarrow> fault + (client \<times> chatState)" where
  "createClient st fd_new mem nick_mem =
     (let nick_text = ''user:'' @ fmt_d fd_new;
          nicklen = length nick_text;
          c = \<lparr>fd = fd_new,
               nick = takeWhile (\<lambda>x. x \<noteq> NUL) (nick_text @ drop nicklen nick_mem),
               read_cb = circbuf_alloc mem READBUF_SIZE\<rparr>
      in if fd c < 0 \<or> MAX_CLIENTS \<le> fd c then Inl OutOfBounds
         else if clients st (fd c) \<noteq> None then Inl AssertFail
         else
           let st1 = st\<lparr>clients := (clients st)(fd c \<mapsto> c)\<rparr>;
               st2 = (if fd c > maxclient st1 then st1\<lparr>maxclient := fd c\<rparr> else st1)
           in Inr (c, st2\<lparr>numclients := numclients st2 + 1\<rparr>))"

text \<open>
  The downward \<open>for\<close> loop of \<open>freeClient\<close>, from the value \<open>j\<close> of its counter:
  the result is the state and the value of \<open>j\<close> when the loop is left.
\<close>

function scan_down :: "chatState \<Rightarrow> int \<Rightarrow> chatState \<times> int" where
  "scan_down st j =
     (if j \<ge> 0 then
        (if clients st j \<noteq> None then (st\<lparr>maxclient := j\<rparr>, j)
         else scan_down st (j - 1))
      else (st, j))"
  by pat_completeness auto
termination
  by (relation "measure (\<lambda>(st, j). nat (j + 1))") auto

definition freeClient :: "chatState \<Rightarrow> client \<Rightarrow> chatState" where
  "freeClient st c =
     (let st1 = st\<lparr>clients := (clients st)(fd c := None)\<rparr>;
          st2 = st1\<lparr>numclients := numclients st1 - 1\<rparr>
      in if maxclient st2 = fd c then
           (case scan_down st2 (maxclient st2 - 1) of
              (st3, j) \<Rightarrow> if j = - 1 then st3\<lparr>maxclient := - 1\<rparr> else st3)
         else st2)"

text \<open>
  \<open>initChat\<close>, with the descriptor \<open>sock\<close> that \<open>createTCPServer\<close> returns; \<open>None\<close>
  is the \<open>exit(1)\<close>.
\<close>

definition initChat :: "int \<Rightarrow> chatState option" where
  "initChat sock =
     (if sock = - 1 then None
      else Some \<lparr>serversock = sock, numclients = 0, maxclient = - 1, clients = (\<lambda>_. None)\<rparr>)"

text \<open>
  A \<open>write(fd, s, len)\<close> is recorded as the descriptor and the \<open>len\<close> bytes written.
  Its result is discarded by every caller.
\<close>

type_synonym sock_write = "int \<times> string"

text \<open>The loop of \<open>sendMsgToAllClientsBut\<close>, from the value \<open>j\<close> of its counter.\<close>

function send_loop :: "chatState \<Rightarrow> int \<Rightarrow> string \<Rightarrow> nat \<Rightarrow> int \<Rightarrow> sock_write list" where
  "send_loop st excluded s len j =
     (if j \<le> maxclient st then
        (case clients st j of
           None \<Rightarrow> send_loop st excluded s len (j + 1)
         | Some c \<Rightarrow>
             if fd c = excluded then send_loop st excluded s len (j + 1)
             else (fd c, take len s) # send_loop st excluded s len (j + 1))
      else [])"
  by pat_completeness auto
termination
  by (relation "measure (\<lambda>(st, excluded, s, len, j). nat (maxclient st + 1 - j))") auto

definition sendMsgToAllClientsBut :: "chatState \<Rightarrow> int \<Rightarrow> string \<Rightarrow> nat \<Rightarrow> sock_write list" where
  "sendMsgToAllClientsBut st excluded s len = send_loop st excluded s len 0"

subsection \<open>The client branch of \<open>main\<close>\<close>

text \<open>The loop that counts the occurrences of \<open>MSG_SEP\<close> in the bytes read.\<close>

primrec count_sep :: "char list \<Rightarrow> int" where
  "count_sep [] = 0"
| "count_sep (x # xs) = (if x = MSG_SEP then 1 else 0) + count_sep xs"

text \<open>
  The \<open>do\<close>-\<open>while\<close> loop that extracts one message, from the value \<open>idx\<close> of
  \<open>readbuf_idx\<close>. \<open>readbuf\<close> is the scratch array; an index that has left it is an
  access out of bounds. The value that \<open>circbuf_pop\<close> returns is discarded, as in
  the source. The result is the client's buffer, the scratch array and
  \<open>readbuf_idx\<close> when the loop is left.
\<close>

function extract_loop :: "Circbuf \<Rightarrow> char list \<Rightarrow> nat \<Rightarrow> fault + (Circbuf \<times> char list \<times> nat)" where
  "extract_loop cb readbuf idx =
     (if length readbuf \<le> idx then Inl OutOfBounds
      else
        (case circbuf_pop cb (readbuf ! idx) of
           (r, cb', d) \<Rightarrow>
             let readbuf' = readbuf[idx := d]
             in if readbuf' ! idx \<noteq> MSG_SEP then extract_loop cb' readbuf' (idx + 1)
                else Inr (cb', readbuf', idx + 1)))"
  by pat_completeness auto
termination
  by (relation "measure (\<lambda>(cb, readbuf, idx). length readbuf - idx)") auto

text \<open>The loop from \<open>readbuf_idx = 0\<close>, and the terminator written after it.\<close>

definition extract_msg :: "Circbuf \<Rightarrow> char list \<Rightarrow> fault + (Circbuf \<times> char list \<times> nat)" where
  "extract_msg cb readbuf =
     bindF (extract_loop cb readbuf 0) (\<lambda>(cb', readbuf', idx).
       if length readbuf' \<le> idx then Inl OutOfBounds
       else Inr (cb', readbuf'[idx := NUL], idx))"

text \<open>
  The C string functions, on the bytes of an array from the position the pointer
  has. Each one runs to the terminator; running off the array is an access out of
  bounds. \<open>c_strchr\<close> gives the offset of the byte found, \<open>None\<close> being \<open>NULL\<close>.
\<close>

fun c_strchr :: "char list \<Rightarrow> char \<Rightarrow> fault + nat option" where
  "c_strchr [] ch = Inl OutOfBounds"
| "c_strchr (x # xs) ch =
     (if x = ch then Inr (Some 0)
      else if x = NUL then Inr None
      else map_sum id (map_option Suc) (c_strchr xs ch))"

text \<open>The bytes of a C string, as \<open>strlen\<close>, \<open>memcpy\<close> and \<open>%s\<close> read them.\<close>

fun c_str :: "char list \<Rightarrow> fault + string" where
  "c_str [] = Inl OutOfBounds"
| "c_str (x # xs) = (if x = NUL then Inr [] else map_sum id ((#) x) (c_str xs))"

text \<open>\<open>strcmp(a, b) == 0\<close>.\<close>

fun c_streq :: "char list \<Rightarrow> char list \<Rightarrow> fault + bool" where
  "c_streq [] bs = Inl OutOfBounds"
| "c_streq as [] = Inl OutOfBounds"
| "c_streq (a # as) (b # bs) =
     (if a \<noteq> b then Inr False else if a = NUL then Inr True else c_streq as bs)"

text \<open>
  What \<open>main\<close> does with one extracted message in \<open>readbuf\<close>, for the client in
  slot \<open>j\<close>: a command, or a line for the other clients. The result is the state, the
  scratch array and the bytes written to sockets. The \<open>printf\<close> to the console is
  left out.
\<close>

definition process_msg :: "chatState \<Rightarrow> int \<Rightarrow> char list \<Rightarrow> fault + (chatState \<times> char list \<times> sock_write list)" where
  "process_msg st j readbuf =
     (case clients st j of
        None \<Rightarrow> Inl NullPointer
      | Some c \<Rightarrow>
          if readbuf = [] then Inl OutOfBounds
          else if readbuf ! 0 = CHR ''/'' then
            bindF (c_strchr readbuf (CHR 0x0D)) (\<lambda>p.
              let rb1 = (case p of None \<Rightarrow> readbuf | Some i \<Rightarrow> readbuf[i := NUL])
              in bindF (c_strchr rb1 (CHR 0x0A)) (\<lambda>p.
                let rb2 = (case p of None \<Rightarrow> rb1 | Some i \<Rightarrow> rb1[i := NUL])
                in bindF (c_strchr rb2 (CHR '' '')) (\<lambda>a.
                  let rb3 = (case a of None \<Rightarrow> rb2 | Some i \<Rightarrow> rb2[i := NUL]);
                      arg = map_option Suc a
                  in bindF (c_streq rb3 (''/nick'' @ [NUL])) (\<lambda>eq.
                    case arg of
                      Some k \<Rightarrow>
                        if eq then
                          bindF (c_str (drop k rb3)) (\<lambda>new_nick.
                            Inr (st\<lparr>clients := (clients st)(j \<mapsto> c\<lparr>nick := new_nick\<rparr>)\<rparr>,
                                 rb3, []))
                        else Inr (st, rb3, [(fd c, ''Unsupported command'' @ [CHR 0x0A])])
                    | None \<Rightarrow> Inr (st, rb3, [(fd c, ''Unsupported command'' @ [CHR 0x0A])])))))
          else
            bindF (c_str readbuf) (\<lambda>line.
              let full = nick c @ ''> '' @ line;
                  msg = take 255 full;
                  msglen = (if length full \<ge> 256 then 255 else length full)
              in Inr (st, readbuf, sendMsgToAllClientsBut st j msg msglen)))"

text \<open>
  The \<open>for\<close> loop over \<open>sep_occur\<close>: each round extracts one message from the buffer
  of the client in slot \<open>j\<close> and processes it. Besides the state and the scratch
  array, the result lists for each round the bytes the round has popped into
  \<open>readbuf\<close> (the extracted message) and the bytes it has written to sockets.
\<close>

fun rounds :: "nat \<Rightarrow> chatState \<Rightarrow> int \<Rightarrow> char list \<Rightarrow>
    fault + (chatState \<times> char list \<times> (string \<times> sock_write list) list)" where
  "rounds 0 st j readbuf = Inr (st, readbuf, [])"
| "rounds (Suc n) st j readbuf =
     (case clients st j of
        None \<Rightarrow> Inl NullPointer
      | Some c \<Rightarrow>
          bindF (extract_msg (read_cb c) readbuf) (\<lambda>(cb', rb1, idx).
            let st1 = st\<lparr>clients := (clients st)(j \<mapsto> c\<lparr>read_cb := cb'\<rparr>)\<rparr>
            in bindF (process_msg st1 j rb1) (\<lambda>(st2, rb2, ws).
                 bindF (rounds n st2 j rb2) (\<lambda>(st3, rb3, tr).
                   Inr (st3, rb3, (take idx rb1, ws) # tr)))))"

text \<open>
  What \<open>read\<close> has returned: \<open>-1\<close>, or the bytes it has stored in \<open>tmpbuf\<close>, their
  number being its result. \<open>read\<close> returns at most \<open>count\<close> bytes.
\<close>

datatype read_result = ReadFail | ReadBytes "char list"

text \<open>
  The body of the loop over the clients in \<open>main\<close>, for a slot \<open>j\<close> that is occupied
  and readable, from the computation of \<open>count\<close> on. \<open>tmpbuf\<close> has
  \<open>READBUF_SIZE\<close> bytes, so that \<open>tmpbuf[nread]\<close> is in the array for
  \<open>0 \<le> nread < READBUF_SIZE\<close>; for \<open>nread = -1\<close> the store to \<open>tmpbuf[nread]\<close>
  is outside it. The bytes read are the source of the bulk push, their number its
  count.
\<close>

definition client_readable :: "chatState \<Rightarrow> int \<Rightarrow> char list \<Rightarrow> read_result \<Rightarrow>
    fault + (chatState \<times> char list \<times> (string \<times> sock_write list) list)" where
  "client_readable st j readbuf rd =
     (case clients st j of
        None \<Rightarrow> Inl NullPointer
      | Some c \<Rightarrow>
          let (nread, tmpbuf) = (case rd of ReadFail \<Rightarrow> (- 1, []) | ReadBytes d \<Rightarrow> (int (length d), d));
              cb1 = snd (circbuf_push_from_linear (read_cb c) tmpbuf nread);
              c1 = c\<lparr>read_cb := cb1\<rparr>;
              st1 = st\<lparr>clients := (clients st)(j \<mapsto> c1)\<rparr>
          in if nread < 0 \<or> READBUF_SIZE \<le> nread then Inl OutOfBounds
             else if nread \<le> 0 then Inr (freeClient st1 c1, readbuf, [])
             else
               let sep_occur = count_sep tmpbuf
               in if sep_occur > 0 \<or> circbuf_space_left cb1 \<le> 1 then
                    rounds (nat (if sep_occur = 0 then 1 else sep_occur)) st1 j readbuf
                  else Inr (st1, readbuf, []))"

text \<open>The number of bytes that \<open>main\<close> asks \<open>read\<close> for.\<close>

definition read_count :: "Circbuf \<Rightarrow> int" where
  "read_count cb = circbuf_space_left cb - 1"

subsection \<open>Sequences of operations\<close>

text \<open>
  The registry operations that \<open>main\<close> performs: \<open>createClient\<close> on a descriptor, and
  \<open>freeClient\<close> on the client of an occupied slot. A sequence stops (\<open>None\<close>) where
  \<open>createClient\<close> fails or the slot to free is empty. A registration carries the
  two memory contents that \<open>createClient\<close> takes.
\<close>

datatype reg_op = Register int "char list" "char list" | Unregister int

definition reg_step :: "chatState \<Rightarrow> reg_op \<Rightarrow> chatState option" where
  "reg_step st op =
     (case op of
        Register i mem nick_mem \<Rightarrow>
          (case createClient st i mem nick_mem of Inl e \<Rightarrow> None | Inr (c, st') \<Rightarrow> Some st')
      | Unregister i \<Rightarrow>
          (case clients st i of None \<Rightarrow> None | Some c \<Rightarrow> Some (freeClient st c)))"

fun run_ops :: "chatState \<Rightarrow> reg_op list \<Rightarrow> chatState option" where
  "run_ops st [] = Some st"
| "run_ops st (op # ops) =
     (case reg_step st op of None \<Rightarrow> None | Some st' \<Rightarrow> run_ops st' ops)"

text \<open>The registry invariant.\<close>

definition registry_inv :: "chatState \<Rightarrow> bool" where
  "registry_inv st \<longleftrightarrow>
     dom (clients st) \<subseteq> {0..<MAX_CLIENTS} \<and>
     (\<forall>j c. clients st j = Some c \<longrightarrow> fd c = j) \<and>
     numclients st = int (card (dom (clients st))) \<and>
     maxclient st = (if dom (clients st) = {} then - 1 else Max (dom (clients st)))"

text \<open>
  The operations on a circular buffer. The bulk operations take the array, its
  length being the count \<open>n\<close>.
\<close>

datatype cb_op = OpPush char | OpPop char | OpPushFromLinear "char list"
  | OpPopToLinear "char list" | OpEmpty

definition cb_step :: "Circbuf \<Rightarrow> cb_op \<Rightarrow> Circbuf" where
  "cb_step cb op =
     (case op of
        OpPush d \<Rightarrow> snd (circbuf_push cb d)
      | OpPop d \<Rightarrow> fst (snd (circbuf_pop cb d))
      | OpPushFromLinear src \<Rightarrow> snd (circbuf_push_from_linear cb src (int (length src)))
      | OpPopToLinear dest \<Rightarrow> snd (snd (circbuf_pop_to_linear dest cb (int (length dest))))
      | OpEmpty \<Rightarrow> circbuf_empty cb)"

definition cb_run :: "Circbuf \<Rightarrow> cb_op list \<Rightarrow> Circbuf" where
  "cb_run cb ops = foldl cb_step cb ops"

subsection \<open>Messages\<close>

text \<open>
  An extracted message: bytes that end with the separator and hold no other
  separator.
\<close>

definition is_msg :: "string \<Rightarrow> bool" where
  "is_msg m \<longleftrightarrow> m \<noteq> [] \<and> last m = MSG_SEP \<and> MSG_SEP \<notin> set (butlast m)"

text \<open>Text without a terminator, a line feed or a carriage return.\<close>

definition plain :: "string \<Rightarrow> bool" where
  "plain xs \<longleftrightarrow> NUL \<notin> set xs \<and> CHR 0x0A \<notin> set xs \<and> CHR 0x0D \<notin> set xs"

section \<open>Properties of the circular buffer\<close>

declare push_loop.simps [simp del] pop_loop.simps [simp del] extract_loop.simps [simp del]

lemma c_mod_pos: "0 \<le> a \<Longrightarrow> 0 < b \<Longrightarrow> c_mod a b = a mod b"
  by (simp add: c_mod_def)

lemma succ_mod_range:
  fixes i s :: int
  assumes "0 \<le> i" "i < s"
  shows "(i + 1) mod s = (if i + 1 = s then 0 else i + 1)"
  using assms by (simp add: mod_pos_pos_trivial)

lemma circbuf_len_mod:
  assumes "cb_wf cb"
  shows "circbuf_len cb = (write_idx cb - read_idx cb) mod size_cb cb"
proof (cases "write_idx cb \<ge> read_idx cb")
  case True
  with assms show ?thesis
    by (auto simp: circbuf_len_def cb_wf_def mod_pos_pos_trivial)
next
  case False
  with assms have "(write_idx cb - read_idx cb + size_cb cb) mod size_cb cb
      = write_idx cb - read_idx cb + size_cb cb"
    by (intro mod_pos_pos_trivial) (auto simp: cb_wf_def)
  with False show ?thesis
    by (simp add: circbuf_len_def)
qed

lemma circbuf_len_range:
  "cb_wf cb \<Longrightarrow> 0 \<le> circbuf_len cb \<and> circbuf_len cb \<le> size_cb cb - 1"
  by (auto simp: circbuf_len_def cb_wf_def)

lemma push_wf: "cb_wf cb \<Longrightarrow> cb_wf (snd (circbuf_push cb d))"
  by (auto simp: circbuf_push_def cb_wf_def c_mod_pos succ_mod_range)

lemma pop_wf: "cb_wf cb \<Longrightarrow> cb_wf (fst (snd (circbuf_pop cb d)))"
  by (auto simp: circbuf_pop_def cb_wf_def c_mod_pos succ_mod_range)

lemma push_size: "size_cb (snd (circbuf_push cb d)) = size_cb cb"
  by (simp add: circbuf_push_def)

lemma pop_size: "size_cb (fst (snd (circbuf_pop cb d))) = size_cb cb"
  by (simp add: circbuf_pop_def)


lemma push_loop_stop: "\<not> (i < n \<and> i < size_cb cb - 1) \<Longrightarrow> push_loop cb src n i = (i, cb)"
  by (subst push_loop.simps) auto

lemma push_loop_step:
  "i < n \<Longrightarrow> i < size_cb cb - 1 \<Longrightarrow> circbuf_push cb (src ! nat i) = (r, cb') \<Longrightarrow>
   push_loop cb src n i = (if r = 0 then (i, cb') else push_loop cb' src n (i + 1))"
  by (subst push_loop.simps) auto

lemma pop_loop_stop: "\<not> i < n \<Longrightarrow> pop_loop dest cb n i = (i, dest, cb)"
  by (subst pop_loop.simps) auto

lemma pop_loop_step:
  "i < n \<Longrightarrow> circbuf_pop cb (dest ! nat i) = (r, cb', d) \<Longrightarrow>
   pop_loop dest cb n i =
     (if r = 0 then (i, dest[nat i := d], cb') else pop_loop (dest[nat i := d]) cb' n (i + 1))"
  by (subst pop_loop.simps) auto

lemma push_loop_wf: "cb_wf cb \<Longrightarrow> cb_wf (snd (push_loop cb src n i))"
proof (induction cb src n i rule: push_loop.induct)
  case (1 cb src n i)
  show ?case
  proof (cases "i < n \<and> i < size_cb cb - 1")
    case False
    with "1.prems" show ?thesis by (simp add: push_loop_stop)
  next
    case True
    obtain r cb' where p: "circbuf_push cb (src ! nat i) = (r, cb')"
      by (cases "circbuf_push cb (src ! nat i)")
    have wf': "cb_wf cb'" using push_wf [OF "1.prems", of "src ! nat i"] p by simp
    show ?thesis
    proof (cases "r = 0")
      case True
      with \<open>i < n \<and> i < size_cb cb - 1\<close> p wf' show ?thesis
        by (simp add: push_loop_step [OF _ _ p])
    next
      case False
      have "cb_wf (snd (push_loop cb' src n (i + 1)))"
        using "1.IH" [OF True p [symmetric] False wf'] .
      with True p False show ?thesis
        by (simp add: push_loop_step [OF _ _ p])
    qed
  qed
qed

lemma push_loop_size: "size_cb (snd (push_loop cb src n i)) = size_cb cb"
proof (induction cb src n i rule: push_loop.induct)
  case (1 cb src n i)
  show ?case
  proof (cases "i < n \<and> i < size_cb cb - 1")
    case False
    then show ?thesis by (simp add: push_loop_stop)
  next
    case True
    obtain r cb' where p: "circbuf_push cb (src ! nat i) = (r, cb')"
      by (cases "circbuf_push cb (src ! nat i)")
    have sz: "size_cb cb' = size_cb cb" using push_size [of cb "src ! nat i"] p by simp
    show ?thesis
    proof (cases "r = 0")
      case True
      with \<open>i < n \<and> i < size_cb cb - 1\<close> p sz show ?thesis
        by (simp add: push_loop_step [OF _ _ p])
    next
      case False
      have "size_cb (snd (push_loop cb' src n (i + 1))) = size_cb cb'"
        using "1.IH" [OF True p [symmetric] False] .
      with True p False sz show ?thesis
        by (simp add: push_loop_step [OF _ _ p])
    qed
  qed
qed

lemma pop_loop_wf: "cb_wf cb \<Longrightarrow> cb_wf (snd (snd (pop_loop dest cb n i)))"
proof (induction dest cb n i rule: pop_loop.induct)
  case (1 dest cb n i)
  show ?case
  proof (cases "i < n")
    case False
    with "1.prems" show ?thesis by (simp add: pop_loop_stop)
  next
    case True
    obtain r cb' d where p: "circbuf_pop cb (dest ! nat i) = (r, cb', d)"
      by (cases "circbuf_pop cb (dest ! nat i)")
    have wf': "cb_wf cb'" using pop_wf [OF "1.prems", of "dest ! nat i"] p by simp
    show ?thesis
    proof (cases "r = 0")
      case True
      with \<open>i < n\<close> p wf' show ?thesis
        by (simp add: pop_loop_step [OF _ p])
    next
      case False
      have "cb_wf (snd (snd (pop_loop (dest[nat i := d]) cb' n (i + 1))))"
        using "1.IH" [OF True p [symmetric] refl False wf'] .
      with True p False show ?thesis
        by (simp add: pop_loop_step [OF _ p])
    qed
  qed
qed

lemma pop_loop_size: "size_cb (snd (snd (pop_loop dest cb n i))) = size_cb cb"
proof (induction dest cb n i rule: pop_loop.induct)
  case (1 dest cb n i)
  show ?case
  proof (cases "i < n")
    case False
    then show ?thesis by (simp add: pop_loop_stop)
  next
    case True
    obtain r cb' d where p: "circbuf_pop cb (dest ! nat i) = (r, cb', d)"
      by (cases "circbuf_pop cb (dest ! nat i)")
    have sz: "size_cb cb' = size_cb cb" using pop_size [of cb "dest ! nat i"] p by simp
    show ?thesis
    proof (cases "r = 0")
      case True
      with \<open>i < n\<close> p sz show ?thesis
        by (simp add: pop_loop_step [OF _ p])
    next
      case False
      have "size_cb (snd (snd (pop_loop (dest[nat i := d]) cb' n (i + 1)))) = size_cb cb'"
        using "1.IH" [OF True p [symmetric] refl False] .
      with True p False sz show ?thesis
        by (simp add: pop_loop_step [OF _ p])
    qed
  qed
qed

lemma cb_step_wf: "cb_wf cb \<Longrightarrow> cb_wf (cb_step cb op)"
  by (cases op)
    (simp_all add: cb_step_def push_wf pop_wf push_loop_wf pop_loop_wf
      circbuf_push_from_linear_def circbuf_pop_to_linear_def,
     simp add: circbuf_empty_def cb_wf_def)

lemma cb_step_size: "size_cb (cb_step cb op) = size_cb cb"
  by (cases op)
    (simp_all add: cb_step_def push_size pop_size push_loop_size pop_loop_size
      circbuf_push_from_linear_def circbuf_pop_to_linear_def circbuf_empty_def)

lemma cb_run_wf: "cb_wf cb \<Longrightarrow> cb_wf (cb_run cb ops) \<and> size_cb (cb_run cb ops) = size_cb cb"
  unfolding cb_run_def
  by (induction ops arbitrary: cb) (simp_all add: cb_step_wf cb_step_size)

lemma alloc_wf: "0 < N \<Longrightarrow> length mem = nat N \<Longrightarrow> cb_wf (circbuf_alloc mem N)"
  by (simp add: circbuf_alloc_def cb_wf_def)

lemma len_zero_iff: "cb_wf cb \<Longrightarrow> circbuf_len cb = 0 \<longleftrightarrow> write_idx cb = read_idx cb"
  by (auto simp: circbuf_len_def cb_wf_def)

text \<open>
  Claim C7. A push on a full buffer, one with
  \<open>(write_idx + 1) mod size = read_idx\<close>, returns 0 and leaves the buffer as it
  was: content and both indices. A pop on an empty buffer, one with
  \<open>read_idx = write_idx\<close>, returns 0 and leaves the buffer and the destination
  byte as they were.
\<close>

theorem push_full_pop_empty_keep_state:
  "(cb_wf cb \<and> (write_idx cb + 1) mod size_cb cb = read_idx cb \<longrightarrow>
      circbuf_push cb d = (0, cb)) \<and>
   (read_idx cb = write_idx cb \<longrightarrow> circbuf_pop cb e = (0, cb, e))"
  by (auto simp: circbuf_push_def circbuf_pop_def cb_wf_def c_mod_pos)

theorem push_full_pop_empty_keep_state_witness:
  "circbuf_push \<lparr>buf = ''abcd'', write_idx = 3, read_idx = 0, size_cb = 4\<rparr> (CHR ''x'')
     = (0, \<lparr>buf = ''abcd'', write_idx = 3, read_idx = 0, size_cb = 4\<rparr>) \<and>
   circbuf_pop \<lparr>buf = ''abcd'', write_idx = 2, read_idx = 2, size_cb = 4\<rparr> (CHR ''y'')
     = (0, \<lparr>buf = ''abcd'', write_idx = 2, read_idx = 2, size_cb = 4\<rparr>, CHR ''y'')"
  using push_full_pop_empty_keep_state
      [of "\<lparr>buf = ''abcd'', write_idx = 3, read_idx = 0, size_cb = 4\<rparr>" "CHR ''x''" "CHR ''y''"]
    push_full_pop_empty_keep_state
      [of "\<lparr>buf = ''abcd'', write_idx = 2, read_idx = 2, size_cb = 4\<rparr>" "CHR ''x''" "CHR ''y''"]
  by (simp add: cb_wf_def)

text \<open>
  Claim C9. In every state that a sequence of push, pop, bulk push, bulk pop and
  clear operations reaches from a freshly allocated buffer of size \<open>N \<ge> 1\<close>: the
  length is in \<open>[0, N - 1]\<close>, both indices are in \<open>[0, N)\<close>, the length is 0 exactly
  when the two indices are equal, and the remaining capacity is \<open>N - 1\<close> minus the
  length.
\<close>

theorem ring_invariants:
  assumes "0 < N" and "length mem = nat N"
  shows "0 \<le> circbuf_len (cb_run (circbuf_alloc mem N) ops) \<and>
         circbuf_len (cb_run (circbuf_alloc mem N) ops) \<le> N - 1 \<and>
         0 \<le> write_idx (cb_run (circbuf_alloc mem N) ops) \<and>
         write_idx (cb_run (circbuf_alloc mem N) ops) < N \<and>
         0 \<le> read_idx (cb_run (circbuf_alloc mem N) ops) \<and>
         read_idx (cb_run (circbuf_alloc mem N) ops) < N \<and>
         (circbuf_len (cb_run (circbuf_alloc mem N) ops) = 0 \<longleftrightarrow>
            write_idx (cb_run (circbuf_alloc mem N) ops) = read_idx (cb_run (circbuf_alloc mem N) ops)) \<and>
         circbuf_space_left (cb_run (circbuf_alloc mem N) ops) =
            N - 1 - circbuf_len (cb_run (circbuf_alloc mem N) ops)"
proof -
  let ?cb = "cb_run (circbuf_alloc mem N) ops"
  have wf: "cb_wf ?cb" and sz: "size_cb ?cb = N"
    using cb_run_wf [OF alloc_wf [OF assms], of ops] by (simp_all add: circbuf_alloc_def)
  have idx: "0 \<le> write_idx ?cb" "write_idx ?cb < N" "0 \<le> read_idx ?cb" "read_idx ?cb < N"
    using wf sz by (simp_all add: cb_wf_def)
  from circbuf_len_range [OF wf] len_zero_iff [OF wf] idx sz show ?thesis
    by (simp add: circbuf_space_left_def)
qed

theorem ring_invariants_witness:
  "(0::int) < 4 \<and> length ''....'' = nat 4 \<and>
   cb_run (circbuf_alloc ''....'' 4)
      [OpPushFromLinear ''abcde'', OpPop (CHR ''z''), OpPush (CHR ''q''), OpPopToLinear ''zz'',
       OpEmpty, OpPush (CHR ''r'')]
     = \<lparr>buf = ''rbcq'', write_idx = 1, read_idx = 0, size_cb = 4\<rparr> \<and>
   circbuf_len \<lparr>buf = ''rbcq'', write_idx = 1, read_idx = 0, size_cb = 4\<rparr> = 1 \<and>
   circbuf_space_left \<lparr>buf = ''rbcq'', write_idx = 1, read_idx = 0, size_cb = 4\<rparr> = 2"
proof -
  have run: "cb_run (circbuf_alloc ''....'' 4)
      [OpPushFromLinear ''abcde'', OpPop (CHR ''z''), OpPush (CHR ''q''), OpPopToLinear ''zz'',
       OpEmpty, OpPush (CHR ''r'')]
     = \<lparr>buf = ''rbcq'', write_idx = 1, read_idx = 0, size_cb = 4\<rparr>"
    by code_simp
  show ?thesis
    using ring_invariants [of 4 "''....''"
      "[OpPushFromLinear ''abcde'', OpPop (CHR ''z''), OpPush (CHR ''q''), OpPopToLinear ''zz'',
        OpEmpty, OpPush (CHR ''r'')]"]
    by (simp add: run circbuf_len_def circbuf_space_left_def)
qed

section \<open>Properties of the client registry\<close>

declare scan_down.simps [simp del] send_loop.simps [simp del]

lemma registry_inv_finite: "registry_inv st \<Longrightarrow> finite (dom (clients st))"
  unfolding registry_inv_def by (meson finite_atLeastLessThan_int finite_subset)

lemma scan_down_none:
  "\<forall>i. 0 \<le> i \<and> i \<le> j \<longrightarrow> clients st i = None \<Longrightarrow> j \<ge> - 1 \<Longrightarrow> scan_down st j = (st, - 1)"
proof (induction st j rule: scan_down.induct)
  case (1 st j)
  show ?case
  proof (cases "j \<ge> 0")
    case False
    with "1.prems" have "j = - 1" by simp
    then show ?thesis by (subst scan_down.simps) simp
  next
    case True
    with "1.prems" have n: "clients st j = None" by simp
    have "scan_down st (j - 1) = (st, - 1)"
      using "1.IH" [OF True] n "1.prems" True by simp
    with True n show ?thesis by (subst scan_down.simps) simp
  qed
qed

lemma scan_down_found:
  "0 \<le> m \<Longrightarrow> m \<le> j \<Longrightarrow> clients st m \<noteq> None \<Longrightarrow>
   \<forall>i. m < i \<and> i \<le> j \<longrightarrow> clients st i = None \<Longrightarrow>
   scan_down st j = (st\<lparr>maxclient := m\<rparr>, m)"
proof (induction st j rule: scan_down.induct)
  case (1 st j)
  from "1.prems" have j0: "j \<ge> 0" by simp
  show ?case
  proof (cases "m = j")
    case True
    with "1.prems" j0 show ?thesis by (subst scan_down.simps) auto
  next
    case False
    with "1.prems" have n: "clients st j = None" and lt: "m \<le> j - 1" by auto
    have "scan_down st (j - 1) = (st\<lparr>maxclient := m\<rparr>, m)"
      using "1.IH" [OF j0 _ "1.prems"(1) lt "1.prems"(3)] n "1.prems"(4) by simp
    with j0 n show ?thesis by (subst scan_down.simps) simp
  qed
qed

lemma createClient_inv:
  assumes inv: "registry_inv st" and ok: "createClient st i mem nick_mem = Inr (c, st')"
  shows "registry_inv st'"
proof -
  from ok have rng: "0 \<le> i" "i < MAX_CLIENTS" and free: "clients st i = None"
    by (auto simp: createClient_def Let_def split: if_splits)
  have fin: "finite (dom (clients st))" by (rule registry_inv_finite [OF inv])
  have notin: "i \<notin> dom (clients st)" using free by (simp add: domIff)
  from ok rng free have cl: "clients st' = (clients st)(i \<mapsto> c)" and fdc: "fd c = i"
    and num: "numclients st' = numclients st + 1"
    and mx: "maxclient st' = (if i > maxclient st then i else maxclient st)"
    by (auto simp: createClient_def Let_def split: if_splits)
  have d: "dom (clients st') = insert i (dom (clients st))" by (simp add: cl)
  have 1: "dom (clients st') \<subseteq> {0..<MAX_CLIENTS}"
    using inv rng by (auto simp: d registry_inv_def)
  have 2: "\<forall>j c'. clients st' j = Some c' \<longrightarrow> fd c' = j"
    using inv fdc by (auto simp: cl registry_inv_def)
  have 3: "numclients st' = int (card (dom (clients st')))"
    using inv fin notin by (simp add: d num registry_inv_def)
  have 4: "maxclient st' = Max (dom (clients st'))"
  proof (cases "dom (clients st) = {}")
    case True
    with inv have "maxclient st = - 1" by (simp add: registry_inv_def)
    with rng True show ?thesis by (simp add: mx d)
  next
    case False
    with inv have m: "maxclient st = Max (dom (clients st))" by (simp add: registry_inv_def)
    have "Max (insert i (dom (clients st))) = max i (Max (dom (clients st)))"
      using fin False by simp
    then show ?thesis by (simp add: mx d m max_def)
  qed
  from 1 2 3 4 show ?thesis by (simp add: registry_inv_def d)
qed

lemma freeClient_fields:
  assumes inv: "registry_inv st" and occ: "clients st i = Some c"
  shows "clients (freeClient st c) = (clients st)(i := None)"
    and "numclients (freeClient st c) = numclients st - 1"
    and "serversock (freeClient st c) = serversock st"
    and "maxclient (freeClient st c) =
           (if dom (clients st) - {i} = {} then - 1 else Max (dom (clients st) - {i}))"
proof -
  from inv occ have fdc: "fd c = i" by (simp add: registry_inv_def)
  have fin: "finite (dom (clients st))" by (rule registry_inv_finite [OF inv])
  have iin: "i \<in> dom (clients st)" using occ by (simp add: domIff)
  then have ne: "dom (clients st) \<noteq> {}" by auto
  with inv have mx: "maxclient st = Max (dom (clients st))" by (simp add: registry_inv_def)
  let ?st2 = "st\<lparr>clients := (clients st)(i := None), numclients := numclients st - 1\<rparr>"
  let ?D = "dom (clients st) - {i}"
  have rng: "\<forall>k \<in> dom (clients st). 0 \<le> k" using inv by (auto simp: registry_inv_def)
  have scan: "maxclient st = i \<Longrightarrow>
      scan_down ?st2 (i - 1) = (if ?D = {} then (?st2, - 1) else (?st2\<lparr>maxclient := Max ?D\<rparr>, Max ?D))"
  proof -
    assume top: "maxclient st = i"
    have ub: "\<forall>k \<in> ?D. k < i"
    proof
      fix k assume k: "k \<in> ?D"
      then have "k \<le> Max (dom (clients st))" using fin by simp
      with k mx top show "k < i" by simp
    qed
    have i0: "0 \<le> i" using rng iin by simp
    show ?thesis
    proof (cases "?D = {}")
      case True
      then have "\<forall>k. 0 \<le> k \<and> k \<le> i - 1 \<longrightarrow> clients ?st2 k = None"
        by (auto simp: domIff)
      from scan_down_none [OF this] i0 True show ?thesis by simp
    next
      case False
      have finD: "finite ?D" using fin by simp
      have mD: "Max ?D \<in> ?D" using finD False by (rule Max_in)
      have a: "0 \<le> Max ?D" using mD rng by auto
      have b: "Max ?D \<le> i - 1" using mD ub by auto
      have c: "clients ?st2 (Max ?D) \<noteq> None" using mD by (auto simp: domIff)
      have d: "\<forall>k. Max ?D < k \<and> k \<le> i - 1 \<longrightarrow> clients ?st2 k = None"
      proof (intro allI impI)
        fix k assume k: "Max ?D < k \<and> k \<le> i - 1"
        show "clients ?st2 k = None"
        proof (rule ccontr)
          assume "clients ?st2 k \<noteq> None"
          then have "k \<in> ?D" by (auto simp: domIff split: if_splits)
          then have "k \<le> Max ?D" using finD by simp
          with k show False by simp
        qed
      qed
      from scan_down_found [OF a b c d] False show ?thesis by simp
    qed
  qed
  have other: "maxclient st \<noteq> i \<Longrightarrow> ?D \<noteq> {} \<and> Max ?D = maxclient st"
  proof -
    assume nt: "maxclient st \<noteq> i"
    have "Max (dom (clients st)) \<in> dom (clients st)" using fin ne by (rule Max_in)
    with nt mx have inD: "maxclient st \<in> ?D" by simp
    have "\<forall>k \<in> ?D. k \<le> maxclient st" using fin mx by simp
    with inD fin have "Max ?D = maxclient st" by (intro Max_eqI) auto
    with inD show ?thesis by auto
  qed
  show "clients (freeClient st c) = (clients st)(i := None)"
    using scan by (cases "maxclient st = i") (auto simp: freeClient_def fdc Let_def)
  show "numclients (freeClient st c) = numclients st - 1"
    using scan by (cases "maxclient st = i") (auto simp: freeClient_def fdc Let_def)
  show "serversock (freeClient st c) = serversock st"
    using scan by (cases "maxclient st = i") (auto simp: freeClient_def fdc Let_def)
  show "maxclient (freeClient st c) = (if ?D = {} then - 1 else Max ?D)"
  proof (cases "maxclient st = i")
    case True
    with scan [OF True] show ?thesis by (auto simp: freeClient_def fdc Let_def)
  next
    case False
    with other [OF False] show ?thesis by (auto simp: freeClient_def fdc Let_def)
  qed
qed

lemma freeClient_inv:
  assumes inv: "registry_inv st" and occ: "clients st i = Some c"
  shows "registry_inv (freeClient st c)"
proof -
  note f = freeClient_fields [OF inv occ]
  have fin: "finite (dom (clients st))" by (rule registry_inv_finite [OF inv])
  have iin: "i \<in> dom (clients st)" using occ by (simp add: domIff)
  have d: "dom (clients (freeClient st c)) = dom (clients st) - {i}" by (auto simp: f(1))
  have "card (dom (clients st)) > 0" using fin iin by (auto simp: card_gt_0_iff)
  then have 3: "numclients (freeClient st c) = int (card (dom (clients (freeClient st c))))"
    using inv fin iin by (simp add: d f(2) registry_inv_def)
  have 1: "dom (clients (freeClient st c)) \<subseteq> {0..<MAX_CLIENTS}"
    using inv by (auto simp: d registry_inv_def)
  have 2: "\<forall>j c'. clients (freeClient st c) j = Some c' \<longrightarrow> fd c' = j"
    using inv by (auto simp: f(1) registry_inv_def split: if_splits)
  from 1 2 3 show ?thesis by (simp add: registry_inv_def d f(4))
qed

lemma initChat_inv: "initChat sock = Some st \<Longrightarrow> registry_inv st"
  by (auto simp: initChat_def registry_inv_def split: if_splits)

lemma reg_step_inv: "registry_inv st \<Longrightarrow> reg_step st op = Some st' \<Longrightarrow> registry_inv st'"
  by (cases op)
    (auto simp: reg_step_def split: sum.splits option.splits
      intro: createClient_inv freeClient_inv)

lemma run_ops_inv: "registry_inv st \<Longrightarrow> run_ops st ops = Some st' \<Longrightarrow> registry_inv st'"
proof (induction ops arbitrary: st)
  case Nil
  then show ?case by simp
next
  case (Cons op ops)
  then show ?case by (auto split: option.splits dest: reg_step_inv)
qed

text \<open>
  Claim C5. In every state that a sequence of \<open>createClient\<close> and \<open>freeClient\<close>
  calls reaches from the state \<open>initChat\<close> sets up: \<open>maxclient\<close> is \<open>-1\<close> exactly when
  \<open>numclients\<close> is 0, every occupied slot is at most \<open>maxclient\<close>, \<open>maxclient\<close> is
  the greatest occupied slot or \<open>-1\<close>, \<open>numclients\<close> is the number of occupied slots,
  and no two clients have the same descriptor.
\<close>

theorem registry_invariant_reachable:
  assumes "initChat sock = Some st0" and "run_ops st0 ops = Some st"
  shows "(maxclient st = - 1 \<longleftrightarrow> numclients st = 0) \<and>
         (\<forall>j. clients st j \<noteq> None \<longrightarrow> j \<le> maxclient st) \<and>
         maxclient st = (if dom (clients st) = {} then - 1 else Max (dom (clients st))) \<and>
         numclients st = int (card (dom (clients st))) \<and>
         (\<forall>i j c d. clients st i = Some c \<and> clients st j = Some d \<and> i \<noteq> j \<longrightarrow> fd c \<noteq> fd d)"
proof -
  have inv: "registry_inv st"
    using run_ops_inv [OF initChat_inv [OF assms(1)] assms(2)] .
  have fin: "finite (dom (clients st))" by (rule registry_inv_finite [OF inv])
  from inv have mx: "maxclient st = (if dom (clients st) = {} then - 1 else Max (dom (clients st)))"
    and num: "numclients st = int (card (dom (clients st)))"
    and ids: "\<forall>j c. clients st j = Some c \<longrightarrow> fd c = j"
    and rng: "dom (clients st) \<subseteq> {0..<MAX_CLIENTS}"
    by (simp_all add: registry_inv_def)
  have a: "maxclient st = - 1 \<longleftrightarrow> numclients st = 0"
  proof (cases "dom (clients st) = {}")
    case True
    then show ?thesis by (simp add: mx num)
  next
    case False
    then have "Max (dom (clients st)) \<in> dom (clients st)" using fin by (intro Max_in)
    with rng have "0 \<le> Max (dom (clients st))" by auto
    with False fin show ?thesis by (simp add: mx num)
  qed
  have b: "\<forall>j. clients st j \<noteq> None \<longrightarrow> j \<le> maxclient st"
  proof (intro allI impI)
    fix j assume "clients st j \<noteq> None"
    then have j: "j \<in> dom (clients st)" by (simp add: domIff)
    then have "j \<le> Max (dom (clients st))" using fin by simp
    with j show "j \<le> maxclient st" by (auto simp: mx)
  qed
  have c: "\<forall>i j c d. clients st i = Some c \<and> clients st j = Some d \<and> i \<noteq> j \<longrightarrow> fd c \<noteq> fd d"
    using ids by auto
  from a b c mx num show ?thesis by blast
qed

theorem registry_invariant_reachable_witness:
  "initChat 3 = Some \<lparr>serversock = 3, numclients = 0, maxclient = - 1, clients = (\<lambda>_. None)\<rparr> \<and>
   run_ops \<lparr>serversock = 3, numclients = 0, maxclient = - 1, clients = (\<lambda>_. None)\<rparr>
     [Register 4 (replicate 128 NUL) (replicate 7 NUL), Register 7 (replicate 128 NUL) (replicate 7 NUL),
      Register 5 (replicate 128 NUL) (''......!'' @ [NUL]),
      Unregister 7]
   = Some \<lparr>serversock = 3, numclients = 2, maxclient = 5,
       clients = (\<lambda>_. None)
         (4 \<mapsto> \<lparr>fd = 4, nick = ''user:4'', read_cb = circbuf_alloc (replicate 128 NUL) 128\<rparr>,
          5 \<mapsto> \<lparr>fd = 5, nick = ''user:5!'', read_cb = circbuf_alloc (replicate 128 NUL) 128\<rparr>)\<rparr> \<and>
   maxclient \<lparr>serversock = 3, numclients = 2, maxclient = 5,
       clients = (\<lambda>_. None)
         (4 \<mapsto> \<lparr>fd = 4, nick = ''user:4'', read_cb = circbuf_alloc (replicate 128 NUL) 128\<rparr>,
          5 \<mapsto> \<lparr>fd = 5, nick = ''user:5!'', read_cb = circbuf_alloc (replicate 128 NUL) 128\<rparr>)\<rparr>
     = Max (dom (clients \<lparr>serversock = 3, numclients = 2, maxclient = 5,
       clients = (\<lambda>_. None)
         (4 \<mapsto> \<lparr>fd = 4, nick = ''user:4'', read_cb = circbuf_alloc (replicate 128 NUL) 128\<rparr>,
          5 \<mapsto> \<lparr>fd = 5, nick = ''user:5!'', read_cb = circbuf_alloc (replicate 128 NUL) 128\<rparr>)\<rparr>))"
proof -
  have i: "initChat 3 = Some \<lparr>serversock = 3, numclients = 0, maxclient = - 1, clients = (\<lambda>_. None)\<rparr>"
    by (simp add: initChat_def)
  have s5: "scan_down st 5 = (if clients st 5 \<noteq> None then (st\<lparr>maxclient := 5\<rparr>, 5) else scan_down st 4)" for st
    by (subst scan_down.simps) simp
  have s6: "scan_down st 6 = (if clients st 6 \<noteq> None then (st\<lparr>maxclient := 6\<rparr>, 6) else scan_down st 5)" for st
    by (subst scan_down.simps) simp
  have f4: "fmt_d 4 = ''4''" and f5: "fmt_d 5 = ''5''" and f7: "fmt_d 7 = ''7''"
    by code_simp+
  have r: "run_ops \<lparr>serversock = 3, numclients = 0, maxclient = - 1, clients = (\<lambda>_. None)\<rparr>
     [Register 4 (replicate 128 NUL) (replicate 7 NUL), Register 7 (replicate 128 NUL) (replicate 7 NUL),
      Register 5 (replicate 128 NUL) (''......!'' @ [NUL]),
      Unregister 7]
   = Some \<lparr>serversock = 3, numclients = 2, maxclient = 5,
       clients = (\<lambda>_. None)
         (4 \<mapsto> \<lparr>fd = 4, nick = ''user:4'', read_cb = circbuf_alloc (replicate 128 NUL) 128\<rparr>,
          5 \<mapsto> \<lparr>fd = 5, nick = ''user:5!'', read_cb = circbuf_alloc (replicate 128 NUL) 128\<rparr>)\<rparr>"
    by (simp add: reg_step_def createClient_def freeClient_def MAX_CLIENTS_def READBUF_SIZE_def
        f4 f5 f7 s5 s6 fun_upd_twist Let_def)
  have "maxclient \<lparr>serversock = 3, numclients = 2, maxclient = 5,
       clients = (\<lambda>_. None)
         (4 \<mapsto> \<lparr>fd = 4, nick = ''user:4'', read_cb = circbuf_alloc (replicate 128 NUL) 128\<rparr>,
          5 \<mapsto> \<lparr>fd = 5, nick = ''user:5!'', read_cb = circbuf_alloc (replicate 128 NUL) 128\<rparr>)\<rparr>
     = Max (dom (clients \<lparr>serversock = 3, numclients = 2, maxclient = 5,
       clients = (\<lambda>_. None)
         (4 \<mapsto> \<lparr>fd = 4, nick = ''user:4'', read_cb = circbuf_alloc (replicate 128 NUL) 128\<rparr>,
          5 \<mapsto> \<lparr>fd = 5, nick = ''user:5!'', read_cb = circbuf_alloc (replicate 128 NUL) 128\<rparr>)\<rparr>))"
    using registry_invariant_reachable [OF i r] by (simp split: if_splits)
  with i r show ?thesis by blast
qed

text \<open>
  Claim C6. In a registry state that satisfies the invariant, for a free slot \<open>i\<close>
  inside the array, \<open>createClient\<close> on \<open>i\<close> succeeds and \<open>freeClient\<close> on the
  new client gives back the state before the registration: \<open>numclients\<close> and
  \<open>maxclient\<close> are as before, and so is every other slot.
\<close>

theorem register_unregister_restores:
  assumes inv: "registry_inv st" and rng: "0 \<le> i" "i < MAX_CLIENTS" and free: "clients st i = None"
  shows "\<exists>c st1. createClient st i mem nick_mem = Inr (c, st1) \<and> clients st1 i = Some c \<and>
           freeClient st1 c = st \<and>
           numclients (freeClient st1 c) = numclients st \<and>
           maxclient (freeClient st1 c) = maxclient st \<and>
           (\<forall>j. j \<noteq> i \<longrightarrow> (clients (freeClient st1 c) j = None \<longleftrightarrow> clients st j = None))"
proof -
  obtain c st1 where ok: "createClient st i mem nick_mem = Inr (c, st1)"
    using rng free by (auto simp: createClient_def Let_def)
  have inv1: "registry_inv st1" by (rule createClient_inv [OF inv ok])
  from ok rng free have cl: "clients st1 = (clients st)(i \<mapsto> c)"
    and num: "numclients st1 = numclients st + 1"
    and ss: "serversock st1 = serversock st"
    by (auto simp: createClient_def Let_def split: if_splits)
  have occ: "clients st1 i = Some c" by (simp add: cl)
  note f = freeClient_fields [OF inv1 occ]
  have d: "dom (clients st1) - {i} = dom (clients st)" using free by (auto simp: cl domIff)
  have 1: "clients (freeClient st1 c) = clients st" using free by (auto simp: f(1) cl)
  have 2: "numclients (freeClient st1 c) = numclients st" by (simp add: f(2) num)
  have 3: "serversock (freeClient st1 c) = serversock st" by (simp add: f(3) ss)
  have 4: "maxclient (freeClient st1 c) = maxclient st"
    using inv by (simp add: f(4) d registry_inv_def)
  have "freeClient st1 c = st" using 1 2 3 4 by (intro chatState.equality) simp_all
  with ok occ show ?thesis by simp
qed

theorem register_unregister_restores_witness:
  "registry_inv \<lparr>serversock = 3, numclients = 1, maxclient = 4,
      clients = (\<lambda>_. None)
        (4 \<mapsto> \<lparr>fd = 4, nick = ''user:4'', read_cb = circbuf_alloc (replicate 128 NUL) 128\<rparr>)\<rparr> \<and>
   (0::int) \<le> 7 \<and> 7 < MAX_CLIENTS \<and>
   (\<exists>c st1. createClient \<lparr>serversock = 3, numclients = 1, maxclient = 4,
      clients = (\<lambda>_. None)
        (4 \<mapsto> \<lparr>fd = 4, nick = ''user:4'', read_cb = circbuf_alloc (replicate 128 NUL) 128\<rparr>)\<rparr>
        7 (replicate 128 NUL) (replicate 7 NUL) = Inr (c, st1) \<and> maxclient st1 = 7 \<and>
      freeClient st1 c = \<lparr>serversock = 3, numclients = 1, maxclient = 4,
      clients = (\<lambda>_. None)
        (4 \<mapsto> \<lparr>fd = 4, nick = ''user:4'', read_cb = circbuf_alloc (replicate 128 NUL) 128\<rparr>)\<rparr>)"
proof -
  let ?st = "\<lparr>serversock = 3, numclients = 1, maxclient = 4,
      clients = (\<lambda>_. None)
        (4 \<mapsto> \<lparr>fd = 4, nick = ''user:4'', read_cb = circbuf_alloc (replicate 128 NUL) 128\<rparr>)\<rparr>"
  have inv: "registry_inv ?st"
    by (simp add: registry_inv_def MAX_CLIENTS_def)
  have rng: "(0::int) \<le> 7" "7 < MAX_CLIENTS" by (simp_all add: MAX_CLIENTS_def)
  have free: "clients ?st 7 = None"
    by simp
  from register_unregister_restores [OF inv rng free, of "replicate 128 NUL" "replicate 7 NUL"]
  obtain c st1 where a: "createClient ?st 7 (replicate 128 NUL) (replicate 7 NUL) = Inr (c, st1)"
    and b: "freeClient st1 c = ?st" by blast
  from a have "maxclient st1 = 7"
    by (auto simp: createClient_def Let_def MAX_CLIENTS_def split: if_splits)
  with a b inv rng show ?thesis by blast
qed

section \<open>Properties of the broadcast\<close>

lemma send_loop_filter:
  "\<forall>j c. clients st j = Some c \<longrightarrow> fd c = j \<Longrightarrow>
   send_loop st ex s len j =
     map (\<lambda>k. (k, take len s)) (filter (\<lambda>k. clients st k \<noteq> None \<and> k \<noteq> ex) [j..maxclient st])"
proof (induction st ex s len j rule: send_loop.induct)
  case (1 st ex s len j)
  show ?case
  proof (cases "j \<le> maxclient st")
    case False
    then show ?thesis by (subst send_loop.simps) simp
  next
    case True
    then have up: "[j..maxclient st] = j # [j + 1..maxclient st]" by (simp add: upto_rec1)
    show ?thesis
    proof (cases "clients st j")
      case None
      with True "1.IH"(1) [OF True None] "1.prems" show ?thesis
        by (subst send_loop.simps) (simp add: up)
    next
      case (Some c)
      with "1.prems" have fdc: "fd c = j" by simp
      show ?thesis
      proof (cases "fd c = ex")
        case True
        with \<open>j \<le> maxclient st\<close> Some "1.IH"(2) [OF \<open>j \<le> maxclient st\<close> Some True] "1.prems" fdc
        show ?thesis by (subst send_loop.simps) (simp add: up)
      next
        case False
        with \<open>j \<le> maxclient st\<close> Some "1.IH"(3) [OF \<open>j \<le> maxclient st\<close> Some False] "1.prems" fdc
        show ?thesis by (subst send_loop.simps) (simp add: up)
      qed
    qed
  qed
qed

lemma sorted_list_of_filter_upto:
  "sorted_list_of_set {k \<in> {i..j}. P k} = filter P [i..j]"
proof -
  have "sorted_list_of_set (set (filter P [i..j])) = filter P [i..j]"
    by (intro sorted_list_of_set.idem_if_sorted_distinct sorted_wrt_filter) simp_all
  moreover have "set (filter P [i..j]) = {k \<in> {i..j}. P k}" by auto
  ultimately show ?thesis by simp
qed

lemma send_all_but:
  assumes inv: "registry_inv st"
  shows "sendMsgToAllClientsBut st ex s len =
     map (\<lambda>k. (k, take len s)) (sorted_list_of_set (dom (clients st) - {ex}))"
proof -
  have fin: "finite (dom (clients st))" by (rule registry_inv_finite [OF inv])
  from inv have ids: "\<forall>j c. clients st j = Some c \<longrightarrow> fd c = j"
    and rng: "dom (clients st) \<subseteq> {0..<MAX_CLIENTS}"
    and mx: "maxclient st = (if dom (clients st) = {} then - 1 else Max (dom (clients st)))"
    by (simp_all add: registry_inv_def)
  have "dom (clients st) - {ex} = {k \<in> {0..maxclient st}. clients st k \<noteq> None \<and> k \<noteq> ex}"
  proof (intro set_eqI iffI)
    fix k assume k: "k \<in> dom (clients st) - {ex}"
    then have "k \<le> Max (dom (clients st))" using fin by simp
    moreover from k have "dom (clients st) \<noteq> {}" by auto
    ultimately have "k \<le> maxclient st" by (simp add: mx)
    moreover from k rng have "0 \<le> k" by auto
    ultimately show "k \<in> {k \<in> {0..maxclient st}. clients st k \<noteq> None \<and> k \<noteq> ex}"
      using k by (auto simp: domIff)
  next
    fix k assume "k \<in> {k \<in> {0..maxclient st}. clients st k \<noteq> None \<and> k \<noteq> ex}"
    then show "k \<in> dom (clients st) - {ex}" by (auto simp: domIff)
  qed
  then have "sorted_list_of_set (dom (clients st) - {ex}) =
      filter (\<lambda>k. clients st k \<noteq> None \<and> k \<noteq> ex) [0..maxclient st]"
    by (simp only: sorted_list_of_filter_upto)
  then show ?thesis
    by (simp only: sendMsgToAllClientsBut_def send_loop_filter [OF ids])
qed

text \<open>
  Claim C3. In a registry state that satisfies the invariant,
  \<open>sendMsgToAllClientsBut\<close> writes the first \<open>len\<close> bytes of the text once to each
  occupied slot other than \<open>excluded\<close>, in ascending order of the slots, and to no
  other descriptor; with \<open>excluded\<close> outside the array (such as \<open>-1\<close>) it writes to
  every occupied slot.
\<close>

theorem broadcast_all_but_excluded:
  assumes "registry_inv st"
  shows "sendMsgToAllClientsBut st ex s len =
           map (\<lambda>k. (k, take len s)) (sorted_list_of_set (dom (clients st) - {ex})) \<and>
         (ex < 0 \<or> MAX_CLIENTS \<le> ex \<longrightarrow>
            sendMsgToAllClientsBut st ex s len =
              map (\<lambda>k. (k, take len s)) (sorted_list_of_set (dom (clients st))))"
proof -
  have "ex \<notin> dom (clients st)" if "ex < 0 \<or> MAX_CLIENTS \<le> ex"
    using assms that by (auto simp: registry_inv_def)
  then have "dom (clients st) - {ex} = dom (clients st)" if "ex < 0 \<or> MAX_CLIENTS \<le> ex"
    using that by simp
  with send_all_but [OF assms, of ex s len] show ?thesis by simp
qed

theorem broadcast_all_but_excluded_witness:
  "registry_inv \<lparr>serversock = 3, numclients = 2, maxclient = 6,
      clients = (\<lambda>_. None)
        (4 \<mapsto> \<lparr>fd = 4, nick = ''user:4'', read_cb = circbuf_alloc (replicate 128 NUL) 128\<rparr>,
         6 \<mapsto> \<lparr>fd = 6, nick = ''Bob'', read_cb = circbuf_alloc (replicate 128 NUL) 128\<rparr>)\<rparr> \<and>
   sendMsgToAllClientsBut \<lparr>serversock = 3, numclients = 2, maxclient = 6,
      clients = (\<lambda>_. None)
        (4 \<mapsto> \<lparr>fd = 4, nick = ''user:4'', read_cb = circbuf_alloc (replicate 128 NUL) 128\<rparr>,
         6 \<mapsto> \<lparr>fd = 6, nick = ''Bob'', read_cb = circbuf_alloc (replicate 128 NUL) 128\<rparr>)\<rparr>
      4 ''hello'' 5 = [(6, ''hello'')] \<and>
   sendMsgToAllClientsBut \<lparr>serversock = 3, numclients = 2, maxclient = 6,
      clients = (\<lambda>_. None)
        (4 \<mapsto> \<lparr>fd = 4, nick = ''user:4'', read_cb = circbuf_alloc (replicate 128 NUL) 128\<rparr>,
         6 \<mapsto> \<lparr>fd = 6, nick = ''Bob'', read_cb = circbuf_alloc (replicate 128 NUL) 128\<rparr>)\<rparr>
      (- 1) ''hello'' 5 = [(4, ''hello''), (6, ''hello'')]"
proof -
  let ?st = "\<lparr>serversock = 3, numclients = 2, maxclient = 6,
      clients = (\<lambda>_. None)
        (4 \<mapsto> \<lparr>fd = 4, nick = ''user:4'', read_cb = circbuf_alloc (replicate 128 NUL) 128\<rparr>,
         6 \<mapsto> \<lparr>fd = 6, nick = ''Bob'', read_cb = circbuf_alloc (replicate 128 NUL) 128\<rparr>)\<rparr>"
  have inv: "registry_inv ?st"
    by (simp add: registry_inv_def MAX_CLIENTS_def)
  have d1: "sorted_list_of_set (dom (clients ?st) - {4}) = [6]" by (simp add: insert_Diff_if)
  have d2: "sorted_list_of_set (dom (clients ?st)) = [4, 6]" by simp
  from broadcast_all_but_excluded [OF inv, of 4 "''hello''" 5]
    broadcast_all_but_excluded [OF inv, of "- 1" "''hello''" 5]
  have "sendMsgToAllClientsBut ?st 4 ''hello'' 5 = [(6, ''hello'')]"
    and "sendMsgToAllClientsBut ?st (- 1) ''hello'' 5 = [(4, ''hello''), (6, ''hello'')]"
    by (simp_all only: d1 d2) simp_all
  with inv show ?thesis by blast
qed

section \<open>The stored bytes under push and pop\<close>

lemma length_contents: "length (contents cb) = nat (circbuf_len cb)"
  by (simp add: contents_def)

lemma contents_Nil_iff: "cb_wf cb \<Longrightarrow> contents cb = [] \<longleftrightarrow> read_idx cb = write_idx cb"
  using len_zero_iff [of cb] circbuf_len_range [of cb]
  by (auto simp: contents_def)

lemma cb_drop_wf: "cb_wf cb \<Longrightarrow> cb_wf (cb_drop k cb)"
  by (simp add: cb_drop_def cb_wf_def)

lemma cb_drop_0: "cb_wf cb \<Longrightarrow> cb_drop 0 cb = cb"
  by (simp add: cb_drop_def cb_wf_def mod_pos_pos_trivial)

lemma cb_drop_drop: "cb_drop k (cb_drop m cb) = cb_drop (m + k) cb"
  by (simp add: cb_drop_def mod_add_left_eq add.assoc)

lemma cb_drop_fields:
  "size_cb (cb_drop k cb) = size_cb cb" "write_idx (cb_drop k cb) = write_idx cb"
  "buf (cb_drop k cb) = buf cb"
  by (simp_all add: cb_drop_def)

lemma len_cb_drop:
  assumes wf: "cb_wf cb" and k: "int k \<le> circbuf_len cb"
  shows "circbuf_len (cb_drop k cb) = circbuf_len cb - int k"
proof -
  let ?s = "size_cb cb"
  have s: "0 < ?s" using wf by (simp add: cb_wf_def)
  have "circbuf_len (cb_drop k cb) = (write_idx cb - (read_idx cb + int k) mod ?s) mod ?s"
    using circbuf_len_mod [OF cb_drop_wf [OF wf], of k] by (simp add: cb_drop_def)
  also have "\<dots> = ((write_idx cb - read_idx cb) - int k) mod ?s"
    by (simp add: mod_diff_right_eq algebra_simps)
  also have "\<dots> = ((write_idx cb - read_idx cb) mod ?s - int k) mod ?s"
    by (simp add: mod_diff_left_eq)
  also have "\<dots> = (circbuf_len cb - int k) mod ?s"
    by (simp add: circbuf_len_mod [OF wf])
  also have "\<dots> = circbuf_len cb - int k"
    using k circbuf_len_range [OF wf] by (intro mod_pos_pos_trivial) auto
  finally show ?thesis .
qed

lemma contents_cb_drop:
  assumes wf: "cb_wf cb" and k: "int k \<le> circbuf_len cb"
  shows "contents (cb_drop k cb) = drop k (contents cb)"
proof (rule nth_equalityI)
  show "length (contents (cb_drop k cb)) = length (drop k (contents cb))"
    using k by (simp add: length_contents len_cb_drop [OF wf k])
next
  fix i assume "i < length (contents (cb_drop k cb))"
  then have i: "int i < circbuf_len cb - int k"
    by (simp add: length_contents len_cb_drop [OF wf k])
  then have ki: "k + i < nat (circbuf_len cb)" by simp
  from i have i': "i < nat (circbuf_len cb - int k)" by simp
  have "contents (cb_drop k cb) ! i =
      buf (cb_drop k cb) ! nat ((read_idx (cb_drop k cb) + int i) mod size_cb (cb_drop k cb))"
    using i' by (simp add: contents_def len_cb_drop [OF wf k])
  also have "\<dots> =
      buf cb ! nat (((read_idx cb + int k) mod size_cb cb + int i) mod size_cb cb)"
    by (simp add: cb_drop_def)
  also have "\<dots> = buf cb ! nat ((read_idx cb + int (k + i)) mod size_cb cb)"
    by (simp add: mod_add_left_eq add.assoc)
  also have "\<dots> = contents cb ! (k + i)"
    using ki by (simp add: contents_def)
  finally show "contents (cb_drop k cb) ! i = drop k (contents cb) ! i"
    using ki by (simp add: length_contents)
qed

lemma pop_nonempty:
  assumes wf: "cb_wf cb" and ne: "read_idx cb \<noteq> write_idx cb"
  shows "circbuf_pop cb d = (1, cb_drop 1 cb, hd (contents cb))"
proof -
  have l: "1 \<le> circbuf_len cb"
    using len_zero_iff [OF wf] circbuf_len_range [OF wf] ne by auto
  have "hd (contents cb) = contents cb ! 0"
    using l by (intro hd_conv_nth) (simp add: contents_def)
  also have "\<dots> = buf cb ! nat (read_idx cb)"
    using l wf by (simp add: contents_def cb_wf_def mod_pos_pos_trivial)
  finally show ?thesis
    using wf ne by (simp add: circbuf_pop_def cb_drop_def c_mod_pos cb_wf_def)
qed

lemma pop_Cons:
  assumes wf: "cb_wf cb" and c: "contents cb = x # xs"
  shows "circbuf_pop cb d = (1, cb_drop 1 cb, x)"
proof -
  from c have ne: "read_idx cb \<noteq> write_idx cb"
    using contents_Nil_iff [OF wf] by auto
  show ?thesis
    using pop_nonempty [OF wf ne, of d] c by simp
qed

lemma contents_drop1:
  assumes wf: "cb_wf cb" and c: "contents cb = x # xs"
  shows "contents (cb_drop 1 cb) = xs"
proof -
  have "int 1 \<le> circbuf_len cb"
    using length_contents [of cb] c by simp
  from contents_cb_drop [OF wf this] c show ?thesis by simp
qed

lemma pop_empty: "contents cb = [] \<Longrightarrow> cb_wf cb \<Longrightarrow> circbuf_pop cb d = (0, cb, d)"
  using contents_Nil_iff [of cb] by (simp add: circbuf_pop_def)

lemma full_iff:
  assumes wf: "cb_wf cb"
  shows "c_mod (write_idx cb + 1) (size_cb cb) = read_idx cb \<longleftrightarrow> circbuf_space_left cb = 0"
  using wf
  by (auto simp: c_mod_pos cb_wf_def succ_mod_range circbuf_space_left_def circbuf_len_def)

lemma push_nonfull:
  assumes wf: "cb_wf cb" and sp: "0 < circbuf_space_left cb"
  shows "fst (circbuf_push cb d) = 1"
    and "contents (snd (circbuf_push cb d)) = contents cb @ [d]"
    and "circbuf_space_left (snd (circbuf_push cb d)) = circbuf_space_left cb - 1"
proof -
  let ?s = "size_cb cb" and ?w = "write_idx cb" and ?r = "read_idx cb"
  let ?cb' = "cb\<lparr>buf := (buf cb)[nat ?w := d], write_idx := (?w + 1) mod ?s\<rparr>"
  have nf: "c_mod (?w + 1) ?s \<noteq> ?r" using full_iff [OF wf] sp by simp
  have s: "0 < ?s" and w: "0 \<le> ?w" "?w < ?s" and r: "0 \<le> ?r" "?r < ?s"
    and lb: "length (buf cb) = nat ?s"
    using wf by (simp_all add: cb_wf_def)
  have p: "circbuf_push cb d = (1, ?cb')"
    using nf w s by (simp add: circbuf_push_def c_mod_pos)
  show "fst (circbuf_push cb d) = 1" by (simp add: p)
  have wf': "cb_wf ?cb'" using push_wf [OF wf, of d] by (simp add: p)
  have lr: "0 \<le> circbuf_len cb" "circbuf_len cb < ?s - 1"
    using circbuf_len_range [OF wf] sp by (simp_all add: circbuf_space_left_def)
  have "circbuf_len ?cb' = ((?w + 1) mod ?s - ?r) mod ?s"
    using circbuf_len_mod [OF wf'] by simp
  also have "\<dots> = ((?w - ?r) + 1) mod ?s"
    by (simp add: mod_diff_left_eq algebra_simps)
  also have "\<dots> = ((?w - ?r) mod ?s + 1) mod ?s"
    by (simp add: mod_add_left_eq)
  also have "\<dots> = (circbuf_len cb + 1) mod ?s"
    by (simp add: circbuf_len_mod [OF wf])
  also have "\<dots> = circbuf_len cb + 1"
    using lr by (intro mod_pos_pos_trivial) auto
  finally have len': "circbuf_len ?cb' = circbuf_len cb + 1" .
  then show "circbuf_space_left (snd (circbuf_push cb d)) = circbuf_space_left cb - 1"
    by (simp add: p circbuf_space_left_def)
  let ?n = "nat (circbuf_len cb)"
  have at_w: "(?r + circbuf_len cb) mod ?s = ?w"
  proof -
    have "(?r + circbuf_len cb) mod ?s = (?r + (?w - ?r) mod ?s) mod ?s"
      by (simp add: circbuf_len_mod [OF wf])
    also have "\<dots> = (?r + (?w - ?r)) mod ?s" by (simp add: mod_add_right_eq)
    also have "\<dots> = ?w" using w by (simp add: mod_pos_pos_trivial)
    finally show ?thesis .
  qed
  have other: "(?r + int k) mod ?s \<noteq> ?w" if k: "k < ?n" for k
  proof
    assume e: "(?r + int k) mod ?s = ?w"
    have "int k mod ?s = ((?r + int k) - ?r) mod ?s" by simp
    also have "\<dots> = ((?r + int k) mod ?s - ?r) mod ?s" by (simp only: mod_diff_left_eq)
    also have "\<dots> = circbuf_len cb" by (simp add: e circbuf_len_mod [OF wf])
    finally have "int k mod ?s = circbuf_len cb" .
    moreover have "int k mod ?s = int k" using k lr by (intro mod_pos_pos_trivial) auto
    ultimately show False using k by simp
  qed
  have "contents ?cb' =
      map (\<lambda>k. (buf cb)[nat ?w := d] ! nat ((?r + int k) mod ?s)) [0..<Suc ?n]"
    using lr by (simp add: contents_def len' nat_add_distrib)
  also have "\<dots> = map (\<lambda>k. (buf cb)[nat ?w := d] ! nat ((?r + int k) mod ?s)) [0..<?n] @
      [(buf cb)[nat ?w := d] ! nat ((?r + int ?n) mod ?s)]"
    by simp
  also have "(buf cb)[nat ?w := d] ! nat ((?r + int ?n) mod ?s) = d"
    using lr at_w w lb by simp
  also have "map (\<lambda>k. (buf cb)[nat ?w := d] ! nat ((?r + int k) mod ?s)) [0..<?n] = contents cb"
    unfolding contents_def
  proof (rule map_cong [OF refl])
    fix k assume "k \<in> set [0..<?n]"
    then have "k < ?n" by simp
    from other [OF this] have "nat ((?r + int k) mod ?s) \<noteq> nat ?w"
      using w s by (simp add: nat_eq_iff)
    then show "(buf cb)[nat ?w := d] ! nat ((?r + int k) mod ?s) = buf cb ! nat ((?r + int k) mod ?s)"
      by simp
  qed
  finally show "contents (snd (circbuf_push cb d)) = contents cb @ [d]"
    by (simp add: p)
qed

lemma push_loop_contents:
  "cb_wf cb \<Longrightarrow> 0 \<le> i \<Longrightarrow> i \<le> n \<Longrightarrow> nat n \<le> length src \<Longrightarrow>
   n - i \<le> circbuf_space_left cb \<Longrightarrow> n \<le> size_cb cb - 1 \<Longrightarrow>
   fst (push_loop cb src n i) = n \<and>
   contents (snd (push_loop cb src n i)) = contents cb @ drop (nat i) (take (nat n) src) \<and>
   circbuf_space_left (snd (push_loop cb src n i)) = circbuf_space_left cb - (n - i)"
proof (induction cb src n i rule: push_loop.induct)
  case (1 cb src n i)
  show ?case
  proof (cases "i < n")
    case False
    with "1.prems" have "i = n" by simp
    then show ?thesis by (simp add: push_loop_stop)
  next
    case True
    with "1.prems" have c: "i < n \<and> i < size_cb cb - 1" and sp: "0 < circbuf_space_left cb"
      by simp_all
    obtain r cb' where p: "circbuf_push cb (src ! nat i) = (r, cb')"
      by (cases "circbuf_push cb (src ! nat i)")
    note nf0 = push_nonfull [OF "1.prems"(1) sp]
    note nf = nf0 [where d = "src ! nat i", unfolded p fst_conv snd_conv]
    have r: "r \<noteq> 0" using nf(1) by simp
    have wf': "cb_wf cb'" using push_wf [OF "1.prems"(1), of "src ! nat i"] p by simp
    have sz: "size_cb cb' = size_cb cb" using push_size [of cb "src ! nat i"] p by simp
    have ih: "fst (push_loop cb' src n (i + 1)) = n \<and>
       contents (snd (push_loop cb' src n (i + 1))) =
         contents cb' @ drop (nat (i + 1)) (take (nat n) src) \<and>
       circbuf_space_left (snd (push_loop cb' src n (i + 1))) =
         circbuf_space_left cb' - (n - (i + 1))"
      using "1.IH" [OF c p [symmetric] r wf'] "1.prems" True nf(3) sz by simp
    have il: "nat i < length (take (nat n) src)" using "1.prems" True by simp
    have d: "drop (nat i) (take (nat n) src) = src ! nat i # drop (nat (i + 1)) (take (nat n) src)"
      using Cons_nth_drop_Suc [OF il] "1.prems"(2) True
      by (simp add: nat_add_distrib)
    have step: "push_loop cb src n i = push_loop cb' src n (i + 1)"
      using push_loop_step [OF _ _ p] c r by simp
    show ?thesis
      using ih nf by (simp add: step d)
  qed
qed

lemma push_from_linear_contents:
  assumes wf: "cb_wf cb" and n: "0 \<le> n" "nat n \<le> length src" "n \<le> circbuf_space_left cb"
  shows "fst (circbuf_push_from_linear cb src n) = n"
    and "contents (snd (circbuf_push_from_linear cb src n)) = contents cb @ take (nat n) src"
    and "circbuf_space_left (snd (circbuf_push_from_linear cb src n)) = circbuf_space_left cb - n"
    and "cb_wf (snd (circbuf_push_from_linear cb src n))"
    and "size_cb (snd (circbuf_push_from_linear cb src n)) = size_cb cb"
proof -
  have "n \<le> size_cb cb - 1"
    using n(3) circbuf_len_range [OF wf] by (simp add: circbuf_space_left_def)
  from push_loop_contents [OF wf _ n(1) n(2) _ this] n(3)
  show "fst (circbuf_push_from_linear cb src n) = n"
    and "contents (snd (circbuf_push_from_linear cb src n)) = contents cb @ take (nat n) src"
    and "circbuf_space_left (snd (circbuf_push_from_linear cb src n)) = circbuf_space_left cb - n"
    by (simp_all add: circbuf_push_from_linear_def)
  show "cb_wf (snd (circbuf_push_from_linear cb src n))"
    by (simp add: circbuf_push_from_linear_def push_loop_wf [OF wf])
  show "size_cb (snd (circbuf_push_from_linear cb src n)) = size_cb cb"
    by (simp add: circbuf_push_from_linear_def push_loop_size)
qed

lemma pop_loop_contents:
  "cb_wf cb \<Longrightarrow> contents cb = xs @ ys \<Longrightarrow> 0 \<le> i \<Longrightarrow> int (length xs) = n - i \<Longrightarrow>
   nat n \<le> length dest \<Longrightarrow>
   pop_loop dest cb n i =
     (n, take (nat i) dest @ xs @ drop (nat n) dest, cb_drop (length xs) cb)"
proof (induction xs arbitrary: dest cb i)
  case Nil
  then have "i = n" by simp
  with Nil show ?case by (simp add: pop_loop_stop cb_drop_0)
next
  case (Cons x xs)
  then have lt: "i < n" by simp
  
  have c: "contents cb = x # xs @ ys" using Cons.prems by simp
  have wf': "cb_wf (cb_drop 1 cb)" by (rule cb_drop_wf [OF Cons.prems(1)])
  have il: "nat i < length dest" using Cons.prems lt by simp
  have ih: "pop_loop (dest[nat i := x]) (cb_drop 1 cb) n (i + 1) =
      (n, take (nat (i + 1)) (dest[nat i := x]) @ xs @ drop (nat n) (dest[nat i := x]),
       cb_drop (length xs) (cb_drop 1 cb))"
    using Cons.IH [OF wf' contents_drop1 [OF Cons.prems(1) c], of "i + 1" "dest[nat i := x]"]
      Cons.prems by simp
  have t: "take (nat (i + 1)) (dest[nat i := x]) = take (nat i) dest @ [x]"
    using il Cons.prems(3) by (simp add: nat_add_distrib take_Suc_conv_app_nth)
  have d: "drop (nat n) (dest[nat i := x]) = drop (nat n) dest"
    using lt Cons.prems(3) by simp
  show ?case
    using pop_loop_step [OF lt pop_Cons [OF Cons.prems(1) c, of "dest ! nat i"]] ih
    by (simp add: t d cb_drop_drop)
qed

lemma extract_loop_step:
  "idx < length rb \<Longrightarrow> circbuf_pop cb (rb ! idx) = (r, cb', d) \<Longrightarrow>
   extract_loop cb rb idx =
     (if d \<noteq> MSG_SEP then extract_loop cb' (rb[idx := d]) (idx + 1)
      else Inr (cb', rb[idx := d], idx + 1))"
  by (subst extract_loop.simps) (simp add: Let_def)

lemma extract_loop_oob: "length rb \<le> idx \<Longrightarrow> extract_loop cb rb idx = Inl OutOfBounds"
  by (subst extract_loop.simps) simp

lemma extract_loop_sep:
  "cb_wf cb \<Longrightarrow> contents cb = ys @ MSG_SEP # zs \<Longrightarrow> MSG_SEP \<notin> set ys \<Longrightarrow>
   idx + length ys < length rb \<Longrightarrow>
   extract_loop cb rb idx =
     Inr (cb_drop (length ys + 1) cb,
          take idx rb @ ys @ MSG_SEP # drop (idx + length ys + 1) rb,
          idx + length ys + 1)"
proof (induction ys arbitrary: cb rb idx)
  case Nil
  then have c: "contents cb = MSG_SEP # zs" and il: "idx < length rb" by simp_all
  note p = pop_Cons [OF Nil.prems(1) c, of "rb ! idx"]
  show ?case
    using extract_loop_step [OF il p] il by (simp add: upd_conv_take_nth_drop)
next
  case (Cons y ys)
  then have c: "contents cb = y # ys @ MSG_SEP # zs" and il: "idx < length rb"
    and y: "y \<noteq> MSG_SEP" by auto
  note p = pop_Cons [OF Cons.prems(1) c, of "rb ! idx"]
  have wf': "cb_wf (cb_drop 1 cb)" by (rule cb_drop_wf [OF Cons.prems(1)])
  have ih: "extract_loop (cb_drop 1 cb) (rb[idx := y]) (idx + 1) =
     Inr (cb_drop (length ys + 1) (cb_drop 1 cb),
          take (idx + 1) (rb[idx := y]) @ ys @ MSG_SEP # drop (idx + 1 + length ys + 1) (rb[idx := y]),
          idx + 1 + length ys + 1)"
    using Cons.IH [OF wf' contents_drop1 [OF Cons.prems(1) c], of "idx + 1" "rb[idx := y]"] Cons.prems by simp
  have t: "take (Suc idx) (rb[idx := y]) = take idx rb @ [y]"
    using il by (simp add: take_Suc_conv_app_nth)
  show ?case
    using extract_loop_step [OF il p] y ih
    by (simp add: t cb_drop_drop)
qed

lemma extract_loop_drain:
  "cb_wf cb \<Longrightarrow> contents cb = xs \<Longrightarrow> MSG_SEP \<notin> set xs \<Longrightarrow> idx + length xs \<le> length rb \<Longrightarrow>
   extract_loop cb rb idx =
     extract_loop (cb_drop (length xs) cb) (take idx rb @ xs @ drop (idx + length xs) rb)
       (idx + length xs)"
proof (induction xs arbitrary: cb rb idx)
  case Nil
  then show ?case by (simp add: cb_drop_0)
next
  case (Cons x xs)
  then have c: "contents cb = x # xs" and il: "idx < length rb"
    and x: "x \<noteq> MSG_SEP" by auto
  note p = pop_Cons [OF Cons.prems(1) c, of "rb ! idx"]
  have wf': "cb_wf (cb_drop 1 cb)" by (rule cb_drop_wf [OF Cons.prems(1)])
  have ih: "extract_loop (cb_drop 1 cb) (rb[idx := x]) (idx + 1) =
     extract_loop (cb_drop (length xs) (cb_drop 1 cb))
       (take (idx + 1) (rb[idx := x]) @ xs @ drop (idx + 1 + length xs) (rb[idx := x]))
       (idx + 1 + length xs)"
    using Cons.IH [OF wf' contents_drop1 [OF Cons.prems(1) c], of "idx + 1" "rb[idx := x]"] Cons.prems by simp
  have t: "take (Suc idx) (rb[idx := x]) = take idx rb @ [x]"
    using il by (simp add: take_Suc_conv_app_nth)
  show ?case
    using extract_loop_step [OF il p] x ih
    by (simp add: t cb_drop_drop)
qed

lemma extract_loop_stale_sep:
  "cb_wf cb \<Longrightarrow> contents cb = [] \<Longrightarrow> drop idx rb = us @ MSG_SEP # vs \<Longrightarrow> MSG_SEP \<notin> set us \<Longrightarrow>
   extract_loop cb rb idx = Inr (cb, rb, idx + length us + 1)"
proof (induction us arbitrary: idx)
  case Nil
  then have il: "idx < length rb" by (cases "idx < length rb") auto
  from Nil.prems(3) have "drop idx rb = MSG_SEP # vs" by simp
  then have "rb ! idx = MSG_SEP" by (rule nth_via_drop)
  moreover from this have "rb[idx := MSG_SEP] = rb" by (metis list_update_id)
  ultimately show ?case
    using extract_loop_step [OF il pop_empty [OF Nil.prems(2,1), of "rb ! idx"]] by simp
next
  case (Cons u us)
  then have il: "idx < length rb" by (cases "idx < length rb") auto
  from Cons.prems(3) have dc: "drop idx rb = u # us @ MSG_SEP # vs" by simp
  then have u: "rb ! idx = u" by (rule nth_via_drop)
  have un: "u \<noteq> MSG_SEP" using Cons.prems by auto
  from u have uid: "rb[idx := u] = rb" by (metis list_update_id)
  have "drop (idx + 1) rb = us @ MSG_SEP # vs"
    using dc by (metis Suc_eq_plus1 drop_Suc list.sel(3) tl_drop)
  from Cons.IH [OF Cons.prems(1,2) this] Cons.prems
  have ih: "extract_loop cb rb (idx + 1) = Inr (cb, rb, idx + 1 + length us + 1)" by simp
  with extract_loop_step [OF il pop_empty [OF Cons.prems(2,1), of "rb ! idx"]] u un uid
  show ?case by simp
qed

lemma extract_loop_stale_none:
  "cb_wf cb \<Longrightarrow> contents cb = [] \<Longrightarrow> MSG_SEP \<notin> set (drop idx rb) \<Longrightarrow>
   extract_loop cb rb idx = Inl OutOfBounds"
proof (induction "length rb - idx" arbitrary: idx)
  case 0
  then show ?case by (simp add: extract_loop_oob)
next
  case (Suc k)
  then have il: "idx < length rb" by simp
  have "rb ! idx \<in> set (drop idx rb)" using il
    by (metis Cons_nth_drop_Suc list.set_intros(1))
  with Suc.prems have ne: "rb ! idx \<noteq> MSG_SEP" by auto
  have "set (drop (idx + 1) rb) \<subseteq> set (drop idx rb)"
    by (simp add: set_drop_subset_set_drop)
  with Suc.prems have "MSG_SEP \<notin> set (drop (idx + 1) rb)" by auto
  from Suc.hyps(1) [OF _ Suc.prems(1,2) this] Suc.hyps(2)
  have ih: "extract_loop cb rb (idx + 1) = Inl OutOfBounds" by simp
  with extract_loop_step [OF il pop_empty [OF Suc.prems(2,1), of "rb ! idx"]] ne
  show ?case by simp
qed

section \<open>Processing of an extracted message\<close>

lemma c_strchr_found:
  "ch \<notin> set xs \<Longrightarrow> NUL \<notin> set xs \<Longrightarrow> c_strchr (xs @ ch # ys) ch = Inr (Some (length xs))"
  by (induction xs) auto

lemma c_strchr_absent:
  "ch \<notin> set xs \<Longrightarrow> NUL \<notin> set xs \<Longrightarrow> ch \<noteq> NUL \<Longrightarrow> c_strchr (xs @ NUL # ys) ch = Inr None"
  by (induction xs) auto

lemma c_str_prefix: "NUL \<notin> set xs \<Longrightarrow> c_str (xs @ NUL # ys) = Inr xs"
  by (induction xs) auto

lemma c_streq_prefix:
  "NUL \<notin> set xs \<Longrightarrow> NUL \<notin> set zs \<Longrightarrow> c_streq (xs @ NUL # ys) (zs @ [NUL]) = Inr (xs = zs)"
proof (induction xs arbitrary: zs)
  case Nil
  then show ?case by (cases zs) auto
next
  case (Cons x xs)
  then show ?case by (cases zs) auto
qed

lemma process_command_with_arg:
  assumes c: "clients st j = Some c"
    and name: "plain name" "CHR '' '' \<notin> set name"
    and arg: "plain arg"
  shows "process_msg st j (CHR ''/'' # name @ CHR '' '' # arg @ [CHR 0x0A, NUL] @ rest) =
     (if name = ''nick''
      then Inr (st\<lparr>clients := (clients st)(j \<mapsto> c\<lparr>nick := arg\<rparr>)\<rparr>,
                CHR ''/'' # name @ NUL # arg @ [NUL, NUL] @ rest, [])
      else Inr (st, CHR ''/'' # name @ NUL # arg @ [NUL, NUL] @ rest,
                [(fd c, ''Unsupported command'' @ [CHR 0x0A])]))"
proof -
  let ?cmd = "CHR ''/'' # name"
  let ?rb = "?cmd @ CHR '' '' # arg @ [CHR 0x0A, NUL] @ rest"
  have rb: "?rb = (?cmd @ CHR '' '' # arg @ [CHR 0x0A]) @ NUL # rest"
    and rb': "?rb = (?cmd @ CHR '' '' # arg) @ CHR 0x0A # NUL # rest" by simp_all
  have 1: "c_strchr ?rb (CHR 0x0D) = Inr None"
    unfolding rb using name arg by (intro c_strchr_absent) (auto simp: plain_def)
  have 2: "c_strchr ?rb (CHR 0x0A) = Inr (Some (length (?cmd @ CHR '' '' # arg)))"
    unfolding rb' using name arg by (intro c_strchr_found) (auto simp: plain_def)
  let ?rb2 = "?cmd @ CHR '' '' # arg @ [NUL, NUL] @ rest"
  have u2: "?rb[length (?cmd @ CHR '' '' # arg) := NUL] = ?rb2"
    unfolding rb' by (subst list_update_length) simp
  have 3: "c_strchr ?rb2 (CHR '' '') = Inr (Some (length ?cmd))"
    using name by (intro c_strchr_found) (auto simp: plain_def)
  let ?rb3 = "?cmd @ NUL # arg @ [NUL, NUL] @ rest"
  have u3: "?rb2[length ?cmd := NUL] = ?rb3"
    by (subst list_update_length) simp
  have 4: "c_streq ?rb3 (''/nick'' @ [NUL]) = Inr (?cmd = ''/nick'')"
    using name by (intro c_streq_prefix) (auto simp: plain_def)
  have d: "drop (Suc (length ?cmd)) ?rb3 = arg @ NUL # NUL # rest"
    by simp
  have 5: "c_str (drop (Suc (length ?cmd)) ?rb3) = Inr arg"
    unfolding d using arg by (intro c_str_prefix) (auto simp: plain_def)
  have pm: "process_msg st j ?rb =
     (if ?cmd = ''/nick''
      then Inr (st\<lparr>clients := (clients st)(j \<mapsto> c\<lparr>nick := arg\<rparr>)\<rparr>, ?rb3, [])
      else Inr (st, ?rb3, [(fd c, ''Unsupported command'' @ [CHR 0x0A])]))"
    unfolding process_msg_def
    by (simp only: c option.case 1 2 3 4 5 u2 u3 bindF_def sum.case Let_def map_option_case)
       simp
  then show ?thesis by simp
qed

lemma c_strchr_total: "NUL \<in> set xs \<Longrightarrow> \<exists>r. c_strchr xs ch = Inr r"
proof (induction xs)
  case Nil
  then show ?case by simp
next
  case (Cons x xs)
  show ?case
  proof (cases "x = ch \<or> x = NUL")
    case True
    then show ?thesis by auto
  next
    case False
    with Cons.prems have "NUL \<in> set xs" by auto
    from Cons.IH [OF this] obtain r where "c_strchr xs ch = Inr r" by blast
    with False show ?thesis by simp
  qed
qed

lemma c_strchr_Some:
  "c_strchr xs ch = Inr (Some p) \<Longrightarrow> p < length xs \<and> xs ! p = ch \<and> (ch \<noteq> NUL \<longrightarrow> NUL \<notin> set (take p xs))"
proof (induction xs arbitrary: p)
  case Nil
  then show ?case by simp
next
  case (Cons x xs)
  show ?case
  proof (cases "x = ch")
    case True
    with Cons.prems show ?thesis by simp
  next
    case False
    with Cons.prems have nz: "x \<noteq> NUL" by (auto split: if_splits)
    from Cons.prems False nz obtain q where q: "c_strchr xs ch = Inr (Some q)" and p: "p = Suc q"
      by (cases "c_strchr xs ch") (auto split: option.splits)
    from Cons.IH [OF q] p nz show ?thesis by auto
  qed
qed

lemma c_str_total: "NUL \<in> set xs \<Longrightarrow> \<exists>s. c_str xs = Inr s"
proof (induction xs)
  case Nil
  then show ?case by simp
next
  case (Cons x xs)
  show ?case
  proof (cases "x = NUL")
    case True
    then show ?thesis by simp
  next
    case False
    with Cons.prems have "NUL \<in> set xs" by auto
    from Cons.IH [OF this] obtain s where "c_str xs = Inr s" by blast
    with False show ?thesis by simp
  qed
qed

lemma c_streq_total: "NUL \<in> set xs \<Longrightarrow> NUL \<in> set ys \<Longrightarrow> \<exists>b. c_streq xs ys = Inr b"
proof (induction xs ys rule: c_streq.induct)
  case (1 bs)
  then show ?case by simp
next
  case (2 a as)
  then show ?case by simp
next
  case (3 a as b bs)
  show ?case
  proof (cases "a \<noteq> b \<or> a = NUL")
    case True
    then show ?thesis by auto
  next
    case False
    with "3.prems" have "NUL \<in> set as" "NUL \<in> set bs" by auto
    from "3.IH" [OF _ _ this] False obtain r where "c_streq as bs = Inr r" by blast
    with False show ?thesis by simp
  qed
qed

lemma NUL_in_update: "NUL \<in> set xs \<Longrightarrow> NUL \<in> set (xs[i := NUL])"
  by (cases "i < length xs") (auto simp: set_update_memI list_update_beyond)

lemma cut_at: "NUL \<in> set (case p of None \<Rightarrow> xs | Some i \<Rightarrow> xs[i := NUL])" if "NUL \<in> set xs"
  using that by (cases p) (simp_all add: NUL_in_update)

lemma NUL_after_found:
  assumes f: "c_strchr xs ch = Inr (Some p)" and ch: "ch \<noteq> NUL" and t: "NUL \<in> set xs"
  shows "NUL \<in> set (drop (Suc p) (xs[p := NUL]))"
proof -
  from c_strchr_Some [OF f] ch have p: "p < length xs" and x: "xs ! p \<noteq> NUL"
    and n: "NUL \<notin> set (take p xs)" by auto
  have "xs = take p xs @ xs ! p # drop (Suc p) xs" using p by (rule id_take_nth_drop)
  then have "set xs = set (take p xs @ xs ! p # drop (Suc p) xs)" by simp
  then have "set xs = set (take p xs) \<union> {xs ! p} \<union> set (drop (Suc p) xs)"
    by (simp only: set_append list.set) auto
  with t n x have "NUL \<in> set (drop (Suc p) xs)" by auto
  then show ?thesis by simp
qed

lemma process_msg_total:
  assumes c: "clients st j = Some c" and t: "NUL \<in> set rb"
  shows "\<exists>st' rb' ws c'. process_msg st j rb = Inr (st', rb', ws) \<and> length rb' = length rb \<and>
           clients st' j = Some c' \<and> read_cb c' = read_cb c \<and> fd c' = fd c \<and>
           (\<forall>i. i \<noteq> j \<longrightarrow> clients st' i = clients st i)"
proof -
  from t have ne: "rb \<noteq> []" by auto
  show ?thesis
  proof (cases "rb ! 0 = CHR ''/''")
    case False
    from c_str_total [OF t] obtain line where "c_str rb = Inr line" by blast
    with c ne False show ?thesis
      by (simp add: process_msg_def bindF_def Let_def)
  next
    case True
    from c_strchr_total [OF t] obtain p1 where p1: "c_strchr rb (CHR 0x0D) = Inr p1" by blast
    define rb1 where "rb1 = (case p1 of None \<Rightarrow> rb | Some i \<Rightarrow> rb[i := NUL])"
    have t1: "NUL \<in> set rb1" unfolding rb1_def by (rule cut_at [OF t])
    have l1: "length rb1 = length rb" by (simp add: rb1_def split: option.splits)
    from c_strchr_total [OF t1] obtain p2 where p2: "c_strchr rb1 (CHR 0x0A) = Inr p2" by blast
    define rb2 where "rb2 = (case p2 of None \<Rightarrow> rb1 | Some i \<Rightarrow> rb1[i := NUL])"
    have t2: "NUL \<in> set rb2" unfolding rb2_def by (rule cut_at [OF t1])
    have l2: "length rb2 = length rb" by (simp add: rb2_def l1 split: option.splits)
    from c_strchr_total [OF t2] obtain a where a: "c_strchr rb2 (CHR '' '') = Inr a" by blast
    define rb3 where "rb3 = (case a of None \<Rightarrow> rb2 | Some i \<Rightarrow> rb2[i := NUL])"
    have t3: "NUL \<in> set rb3" unfolding rb3_def by (rule cut_at [OF t2])
    have l3: "length rb3 = length rb" by (simp add: rb3_def l2 split: option.splits)
    from c_streq_total [OF t3, of "''/nick'' @ [NUL]"]
    obtain eq where eq: "c_streq rb3 (''/nick'' @ [NUL]) = Inr eq" by auto
    have pm: "process_msg st j rb =
        (case map_option Suc a of
           Some k \<Rightarrow>
             if eq then
               bindF (c_str (drop k rb3)) (\<lambda>new_nick.
                 Inr (st\<lparr>clients := (clients st)(j \<mapsto> c\<lparr>nick := new_nick\<rparr>)\<rparr>, rb3, []))
             else Inr (st, rb3, [(fd c, ''Unsupported command'' @ [CHR 0x0A])])
         | None \<Rightarrow> Inr (st, rb3, [(fd c, ''Unsupported command'' @ [CHR 0x0A])]))"
      unfolding process_msg_def
      by (simp only: c option.case ne if_False True if_True p1 bindF_def sum.case Let_def
          rb1_def [symmetric] p2 rb2_def [symmetric] a rb3_def [symmetric] eq simp_thms)
    show ?thesis
    proof (cases a)
      case None
      with pm c l3 show ?thesis by simp
    next
      case (Some k)
      have "NUL \<in> set (drop (Suc k) rb3)"
        using NUL_after_found [OF a [unfolded Some] _ t2] by (simp add: rb3_def Some)
      from c_str_total [OF this] obtain nn where "c_str (drop (Suc k) rb3) = Inr nn" by blast
      with pm c l3 Some show ?thesis by (simp add: bindF_def)
    qed
  qed
qed

section \<open>Extraction rounds\<close>

lemma extract_msg_sep:
  assumes wf: "cb_wf cb" and c: "contents cb = ys @ MSG_SEP # zs" and ys: "MSG_SEP \<notin> set ys"
    and l: "length ys + 1 < length rb"
  shows "extract_msg cb rb =
     Inr (cb_drop (length ys + 1) cb, ys @ MSG_SEP # NUL # drop (length ys + 2) rb, length ys + 1)"
proof -
  from l have l0: "0 + length ys < length rb" by simp
  have u: "(ys @ MSG_SEP # drop (Suc (length ys)) rb)[Suc (length ys) := NUL] =
      ys @ MSG_SEP # NUL # drop (length ys + 2) rb"
  proof -
    have "drop (Suc (length ys)) rb = rb ! Suc (length ys) # drop (length ys + 2) rb"
      using l by (simp add: Cons_nth_drop_Suc)
    then show ?thesis by (simp add: list_update_append)
  qed
  show ?thesis
    using extract_loop_sep [OF wf c ys l0] l u
    by (simp add: extract_msg_def bindF_def)
qed

lemma is_msgE: "is_msg m \<Longrightarrow> \<exists>ys. m = ys @ [MSG_SEP] \<and> MSG_SEP \<notin> set ys"
  unfolding is_msg_def by (metis append_butlast_last_id)

lemma rounds_msgs:
  "clients st j = Some c \<Longrightarrow> cb_wf (read_cb c) \<Longrightarrow> contents (read_cb c) = concat msgs @ res \<Longrightarrow>
   \<forall>m \<in> set msgs. is_msg m \<Longrightarrow> length (contents (read_cb c)) < length rb \<Longrightarrow>
   \<exists>st' rb' tr c'. rounds (length msgs) st j rb = Inr (st', rb', tr) \<and> map fst tr = msgs \<and>
      length rb' = length rb \<and> clients st' j = Some c' \<and> contents (read_cb c') = res \<and>
      cb_wf (read_cb c') \<and> size_cb (read_cb c') = size_cb (read_cb c) \<and> fd c' = fd c \<and>
      (\<forall>i. i \<noteq> j \<longrightarrow> clients st' i = clients st i)"
proof (induction msgs arbitrary: st rb c)
  case Nil
  then show ?case by simp
next
  case (Cons m ms)
  let ?cb = "read_cb c"
  from Cons.prems(4) obtain ys where m: "m = ys @ [MSG_SEP]" and ys: "MSG_SEP \<notin> set ys"
    using is_msgE [of m] by auto
  have c: "contents ?cb = ys @ MSG_SEP # (concat ms @ res)"
    using Cons.prems(3) m by simp
  have l: "length ys + 1 < length rb" using Cons.prems(5) c by simp
  let ?cb' = "cb_drop (length ys + 1) ?cb"
  let ?rb1 = "ys @ MSG_SEP # NUL # drop (length ys + 2) rb"
  have ex: "extract_msg ?cb rb = Inr (?cb', ?rb1, length ys + 1)"
    by (rule extract_msg_sep [OF Cons.prems(2) c ys l])
  have wf': "cb_wf ?cb'" by (rule cb_drop_wf [OF Cons.prems(2)])
  have c': "contents ?cb' = concat ms @ res"
  proof -
    have "int (length ys + 1) \<le> circbuf_len ?cb"
      using length_contents [of ?cb] c by simp
    from contents_cb_drop [OF Cons.prems(2) this] c show ?thesis by simp
  qed
  have l1: "length ?rb1 = length rb" using l by simp
  have t1: "NUL \<in> set ?rb1" by simp
  let ?st1 = "st\<lparr>clients := (clients st)(j \<mapsto> c\<lparr>read_cb := ?cb'\<rparr>)\<rparr>"
  have c1: "clients ?st1 j = Some (c\<lparr>read_cb := ?cb'\<rparr>)" by simp
  from process_msg_total [OF c1 t1]
  obtain st2 rb2 ws c2 where pm: "process_msg ?st1 j ?rb1 = Inr (st2, rb2, ws)"
    and l2: "length rb2 = length ?rb1" and c2: "clients st2 j = Some c2"
    and cb2: "read_cb c2 = ?cb'" and fd2: "fd c2 = fd c"
    and o2: "\<forall>i. i \<noteq> j \<longrightarrow> clients st2 i = clients ?st1 i"
    by auto
  have len2: "length (contents (read_cb c2)) < length rb2"
    using Cons.prems(5) c c' cb2 l1 l2 by simp
  from Cons.IH [OF c2 _ _ _ len2] wf' c' cb2 Cons.prems(4)
  obtain st3 rb3 tr c3 where r: "rounds (length ms) st2 j rb2 = Inr (st3, rb3, tr)"
    and tr: "map fst tr = ms" and l3: "length rb3 = length rb2"
    and c3: "clients st3 j = Some c3" and cn3: "contents (read_cb c3) = res"
    and wf3: "cb_wf (read_cb c3)" and sz3: "size_cb (read_cb c3) = size_cb (read_cb c2)"
    and fd3: "fd c3 = fd c2" and o3: "\<forall>i. i \<noteq> j \<longrightarrow> clients st3 i = clients st2 i"
    by auto
  have "rounds (length (m # ms)) st j rb = Inr (st3, rb3, (take (length ys + 1) ?rb1, ws) # tr)"
    using Cons.prems(1) ex pm r by (simp add: bindF_def)
  moreover have "take (length ys + 1) ?rb1 = m" by (simp add: m)
  ultimately show ?case
    using tr l3 l2 l1 c3 cn3 wf3 sz3 cb2 fd3 fd2 o3 o2
    by (simp add: cb_drop_fields)
qed

lemma count_sep_append: "count_sep (xs @ ys) = count_sep xs + count_sep ys"
  by (induction xs) simp_all

lemma count_sep_none: "MSG_SEP \<notin> set xs \<Longrightarrow> count_sep xs = 0"
  by (induction xs) auto

lemma count_sep_nonneg: "0 \<le> count_sep xs"
  by (induction xs) auto

lemma count_sep_zero: "count_sep xs = 0 \<Longrightarrow> MSG_SEP \<notin> set xs"
proof (induction xs)
  case Nil
  then show ?case by simp
next
  case (Cons x xs)
  then show ?case using count_sep_nonneg [of xs] by (auto split: if_splits)
qed

lemma split_msgs:
  "count_sep zs = int n \<Longrightarrow>
   \<exists>msgs res. zs = concat msgs @ res \<and> length msgs = n \<and> (\<forall>m \<in> set msgs. is_msg m) \<and>
      MSG_SEP \<notin> set res"
proof (induction n arbitrary: zs)
  case 0
  then have "MSG_SEP \<notin> set zs" by (simp add: count_sep_zero)
  then have "zs = concat [] @ zs \<and> length ([] :: string list) = 0 \<and>
      (\<forall>m \<in> set ([] :: string list). is_msg m) \<and> MSG_SEP \<notin> set zs" by simp
  then show ?case by blast
next
  case (Suc n)
  have "MSG_SEP \<in> set zs"
  proof (rule ccontr)
    assume "MSG_SEP \<notin> set zs"
    from count_sep_none [OF this] Suc.prems show False by simp
  qed
  from split_list_first [OF this] obtain ys zs' where z: "zs = ys @ MSG_SEP # zs'"
    and ys: "MSG_SEP \<notin> set ys" by blast
  have "count_sep zs' = int n"
    using Suc.prems by (simp add: z count_sep_append count_sep_none [OF ys])
  from Suc.IH [OF this] obtain msgs res where r: "zs' = concat msgs @ res" "length msgs = n"
    "\<forall>m \<in> set msgs. is_msg m" "MSG_SEP \<notin> set res" by blast
  have "is_msg (ys @ [MSG_SEP])" using ys by (simp add: is_msg_def)
  with r z have "zs = concat ((ys @ [MSG_SEP]) # msgs) @ res \<and>
      length ((ys @ [MSG_SEP]) # msgs) = Suc n \<and>
      (\<forall>m \<in> set ((ys @ [MSG_SEP]) # msgs). is_msg m) \<and> MSG_SEP \<notin> set res" by simp
  then show ?case by blast
qed

section \<open>Round trip, commands and the extraction round\<close>

lemma length_contents_int: "cb_wf cb \<Longrightarrow> int (length (contents cb)) = circbuf_len cb"
  using circbuf_len_range [of cb] by (simp add: length_contents)

text \<open>
  Claim C8, amended. On an empty well-formed buffer whose remaining capacity is at
  least \<open>n\<close>, \<open>circbuf_push_from_linear\<close> of \<open>n\<close> bytes followed by
  \<open>circbuf_pop_to_linear\<close> of \<open>n\<close> bytes copies all \<open>n\<close> bytes both times, gives the
  original bytes in the same order, and leaves the buffer empty.
\<close>

theorem push_pop_linear_roundtrip:
  assumes wf: "cb_wf cb" and empty: "read_idx cb = write_idx cb"
    and n: "0 \<le> n" "n \<le> circbuf_space_left cb"
    and src: "length src = nat n" and dest: "nat n \<le> length dest"
  shows "fst (circbuf_push_from_linear cb src n) = n \<and>
         fst (circbuf_pop_to_linear dest (snd (circbuf_push_from_linear cb src n)) n) = n \<and>
         take (nat n) (fst (snd (circbuf_pop_to_linear dest (snd (circbuf_push_from_linear cb src n)) n)))
           = src \<and>
         contents (snd (snd (circbuf_pop_to_linear dest (snd (circbuf_push_from_linear cb src n)) n)))
           = []"
proof -
  let ?cb1 = "snd (circbuf_push_from_linear cb src n)"
  have e: "contents cb = []" using contents_Nil_iff [OF wf] empty by simp
  have sl: "nat n \<le> length src" using src by simp
  note p = push_from_linear_contents [OF wf n(1) sl n(2)]
  have c1: "contents ?cb1 = src @ []" using p(2) e src by simp
  have "int (length src) = n - 0" using src n(1) by simp
  from pop_loop_contents [OF p(4) c1 _ this dest]
  have pl: "pop_loop dest ?cb1 n 0 = (n, src @ drop (nat n) dest, cb_drop (length src) ?cb1)"
    by simp
  have "int (length src) \<le> circbuf_len ?cb1"
    using length_contents_int [OF p(4)] c1 by simp
  from contents_cb_drop [OF p(4) this] c1
  have "contents (cb_drop (length src) ?cb1) = []" by simp
  with pl p(1) src show ?thesis
    by (simp add: circbuf_pop_to_linear_def)
qed

theorem push_pop_linear_roundtrip_witness:
  "cb_wf \<lparr>buf = ''wxyz'', write_idx = 3, read_idx = 3, size_cb = 4\<rparr> \<and>
   (0::int) \<le> 2 \<and>
   2 \<le> circbuf_space_left \<lparr>buf = ''wxyz'', write_idx = 3, read_idx = 3, size_cb = 4\<rparr> \<and>
   length ''ab'' = nat 2 \<and> nat 2 \<le> length ''....'' \<and>
   fst (circbuf_push_from_linear \<lparr>buf = ''wxyz'', write_idx = 3, read_idx = 3, size_cb = 4\<rparr> ''ab'' 2) = 2 \<and>
   take (nat 2) (fst (snd (circbuf_pop_to_linear ''....''
     (snd (circbuf_push_from_linear \<lparr>buf = ''wxyz'', write_idx = 3, read_idx = 3, size_cb = 4\<rparr> ''ab'' 2)) 2)))
     = ''ab''"
proof -
  let ?cb = "\<lparr>buf = ''wxyz'', write_idx = 3, read_idx = 3, size_cb = 4\<rparr>"
  have wf: "cb_wf ?cb" by (simp add: cb_wf_def)
  have e: "read_idx ?cb = write_idx ?cb" by simp
  have n: "(0::int) \<le> 2" "2 \<le> circbuf_space_left ?cb"
    by (simp_all add: circbuf_space_left_def circbuf_len_def)
  have s: "length ''ab'' = nat 2" and d: "nat 2 \<le> length ''....''" by simp_all
  from push_pop_linear_roundtrip [OF wf e n s d] wf n s d show ?thesis by blast
qed

text \<open>
  Claim C8 as stated, for every buffer with enough remaining capacity, fails on a
  buffer that already holds a byte: the buffer is a queue, so the pop gives the byte
  stored before, not the byte just pushed.
\<close>

theorem push_pop_linear_nonempty_counterexample:
  "cb_wf \<lparr>buf = ''x...'', write_idx = 1, read_idx = 0, size_cb = 4\<rparr> \<and>
   1 \<le> circbuf_space_left \<lparr>buf = ''x...'', write_idx = 1, read_idx = 0, size_cb = 4\<rparr> \<and>
   fst (circbuf_push_from_linear \<lparr>buf = ''x...'', write_idx = 1, read_idx = 0, size_cb = 4\<rparr> ''a'' 1) = 1 \<and>
   circbuf_pop_to_linear ''?''
     (snd (circbuf_push_from_linear \<lparr>buf = ''x...'', write_idx = 1, read_idx = 0, size_cb = 4\<rparr> ''a'' 1)) 1
     = (1, ''x'', \<lparr>buf = ''xa..'', write_idx = 2, read_idx = 1, size_cb = 4\<rparr>) \<and>
   ''x'' \<noteq> ''a''"
  by code_simp

lemma process_command_no_arg:
  assumes c: "clients st j = Some c"
    and name: "plain name" "CHR '' '' \<notin> set name"
  shows "process_msg st j (CHR ''/'' # name @ [CHR 0x0A, NUL] @ rest) =
     Inr (st, CHR ''/'' # name @ [NUL, NUL] @ rest, [(fd c, ''Unsupported command'' @ [CHR 0x0A])])"
proof -
  let ?cmd = "CHR ''/'' # name"
  let ?rb = "?cmd @ [CHR 0x0A, NUL] @ rest"
  have rb: "?rb = (?cmd @ [CHR 0x0A]) @ NUL # rest"
    and rb': "?rb = ?cmd @ CHR 0x0A # NUL # rest" by simp_all
  have 1: "c_strchr ?rb (CHR 0x0D) = Inr None"
    unfolding rb using name by (intro c_strchr_absent) (auto simp: plain_def)
  have 2: "c_strchr ?rb (CHR 0x0A) = Inr (Some (length ?cmd))"
    unfolding rb' using name by (intro c_strchr_found) (auto simp: plain_def)
  let ?rb2 = "?cmd @ NUL # NUL # rest"
  have u2: "?rb[length ?cmd := NUL] = ?rb2"
    unfolding rb' by (subst list_update_length) simp
  have 3: "c_strchr ?rb2 (CHR '' '') = Inr None"
    using name by (intro c_strchr_absent) (auto simp: plain_def)
  have 4: "c_streq ?rb2 (''/nick'' @ [NUL]) = Inr (?cmd = ''/nick'')"
    using name by (intro c_streq_prefix) (auto simp: plain_def)
  have "process_msg st j ?rb = Inr (st, ?rb2, [(fd c, ''Unsupported command'' @ [CHR 0x0A])])"
    unfolding process_msg_def
    by (simp only: c option.case 1 2 3 4 u2 bindF_def sum.case Let_def map_option_case)
       simp
  then show ?thesis by simp
qed


lemma extract_msg_stale_sep:
  assumes wf: "cb_wf cb" and c: "contents cb = xs" and xs: "MSG_SEP \<notin> set xs"
    and d: "drop (length xs) rb = us @ MSG_SEP # vs" and us: "MSG_SEP \<notin> set us"
    and l: "length xs + length us + 1 < length rb"
  shows "extract_msg cb rb =
     Inr (cb_drop (length xs) cb, (xs @ us @ MSG_SEP # vs)[length xs + length us + 1 := NUL],
          length xs + length us + 1)"
proof -
  let ?m = "length xs"
  let ?rb' = "xs @ drop ?m rb"
  have lx: "0 + ?m \<le> length rb" using l by simp
  have dr: "extract_loop cb rb 0 = extract_loop (cb_drop ?m cb) ?rb' ?m"
    using extract_loop_drain [OF wf c xs lx] by simp
  have wf': "cb_wf (cb_drop ?m cb)" by (rule cb_drop_wf [OF wf])
  have e: "contents (cb_drop ?m cb) = []"
    using contents_cb_drop [OF wf, of ?m] length_contents_int [OF wf] c by simp
  have d': "drop ?m ?rb' = us @ MSG_SEP # vs" using d by simp
  have "extract_loop (cb_drop ?m cb) ?rb' ?m = Inr (cb_drop ?m cb, ?rb', ?m + length us + 1)"
    by (rule extract_loop_stale_sep [OF wf' e d' us])
  moreover have "length ?rb' = length rb" using l by simp
  ultimately show ?thesis
    using dr l d by (simp add: extract_msg_def bindF_def)
qed

lemma extract_msg_stale_none:
  assumes wf: "cb_wf cb" and c: "contents cb = xs" and xs: "MSG_SEP \<notin> set xs"
    and l: "length xs \<le> length rb"
    and none: "MSG_SEP \<notin> set (take (length rb - 1 - length xs) (drop (length xs) rb))"
  shows "extract_msg cb rb = Inl OutOfBounds"
proof -
  let ?m = "length xs"
  let ?rb' = "xs @ drop ?m rb"
  have lx: "0 + ?m \<le> length rb" using l by simp
  have dr: "extract_loop cb rb 0 = extract_loop (cb_drop ?m cb) ?rb' ?m"
    using extract_loop_drain [OF wf c xs lx] by simp
  have wf': "cb_wf (cb_drop ?m cb)" by (rule cb_drop_wf [OF wf])
  have e: "contents (cb_drop ?m cb) = []"
    using contents_cb_drop [OF wf, of ?m] length_contents_int [OF wf] c by simp
  have lr: "length ?rb' = length rb" using l by simp
  have d': "drop ?m ?rb' = drop ?m rb" by simp
  show ?thesis
  proof (cases "MSG_SEP \<in> set (drop ?m rb)")
    case False
    then have "MSG_SEP \<notin> set (drop ?m ?rb')" by simp
    from extract_loop_stale_none [OF wf' e this] dr show ?thesis
      by (simp add: extract_msg_def bindF_def)
  next
    case True
    from split_list_first [OF this] obtain us vs where d: "drop ?m rb = us @ MSG_SEP # vs"
      and us: "MSG_SEP \<notin> set us" by blast
    have tot: "length us + 1 + length vs = length rb - ?m"
      using arg_cong [OF d, of length] by simp
    have "\<not> length us < length rb - 1 - ?m"
    proof
      assume lt: "length us < length rb - 1 - ?m"
      then have "take (length rb - 1 - ?m) (drop ?m rb) ! length us = MSG_SEP"
        by (simp add: d nth_append)
      moreover have "length us < length (take (length rb - 1 - ?m) (drop ?m rb))"
        using lt by simp
      ultimately have "MSG_SEP \<in> set (take (length rb - 1 - ?m) (drop ?m rb))"
        by (metis nth_mem)
      with none show False by simp
    qed
    with tot have last: "?m + length us + 1 = length rb" by simp
    have d'': "drop ?m ?rb' = us @ MSG_SEP # vs" using d by simp
    have "extract_loop (cb_drop ?m cb) ?rb' ?m = Inr (cb_drop ?m cb, ?rb', ?m + length us + 1)"
      by (rule extract_loop_stale_sep [OF wf' e d'' us])
    with dr last lr show ?thesis
      by (simp add: extract_msg_def bindF_def)
  qed
qed

text \<open>
  Claim C4. For the client in slot \<open>j\<close>, the message \<open>/nick Bob\<close> sets the
  nickname to \<open>Bob\<close> and writes nothing; \<open>/nick\<close> without an argument and
  \<open>/bogus arg\<close> write \<open>Unsupported command\<close> and a line feed to the client's own
  descriptor only and leave the state, with the nickname, as it was. In general the
  argument of \<open>/nick\<close> becomes the nickname as it is, every other command name is
  unsupported, and so is every command without an argument. The messages are in
  \<open>readbuf\<close> as \<open>main\<close> leaves them there: the separator, the terminator, then
  stale bytes. The three messages of the claim give the same without the separator.
\<close>

theorem nick_command_and_unsupported:
  assumes c: "clients st j = Some c"
  shows
   "process_msg st j (''/nick Bob'' @ [CHR 0x0A, NUL] @ rest) =
      Inr (st\<lparr>clients := (clients st)(j \<mapsto> c\<lparr>nick := ''Bob''\<rparr>)\<rparr>,
           ''/nick'' @ [NUL] @ ''Bob'' @ [NUL, NUL] @ rest, []) \<and>
    process_msg st j (''/nick'' @ [CHR 0x0A, NUL] @ rest) =
      Inr (st, ''/nick'' @ [NUL, NUL] @ rest, [(fd c, ''Unsupported command'' @ [CHR 0x0A])]) \<and>
    process_msg st j (''/bogus arg'' @ [CHR 0x0A, NUL] @ rest) =
      Inr (st, ''/bogus'' @ [NUL] @ ''arg'' @ [NUL, NUL] @ rest,
           [(fd c, ''Unsupported command'' @ [CHR 0x0A])]) \<and>
    (plain arg \<longrightarrow>
       process_msg st j (''/nick '' @ arg @ [CHR 0x0A, NUL] @ rest) =
         Inr (st\<lparr>clients := (clients st)(j \<mapsto> c\<lparr>nick := arg\<rparr>)\<rparr>,
              ''/nick'' @ [NUL] @ arg @ [NUL, NUL] @ rest, [])) \<and>
    (plain name \<and> CHR '' '' \<notin> set name \<and> name \<noteq> ''nick'' \<and> plain arg \<longrightarrow>
       process_msg st j (CHR ''/'' # name @ CHR '' '' # arg @ [CHR 0x0A, NUL] @ rest) =
         Inr (st, CHR ''/'' # name @ NUL # arg @ [NUL, NUL] @ rest,
              [(fd c, ''Unsupported command'' @ [CHR 0x0A])])) \<and>
    (plain name \<and> CHR '' '' \<notin> set name \<longrightarrow>
       process_msg st j (CHR ''/'' # name @ [CHR 0x0A, NUL] @ rest) =
         Inr (st, CHR ''/'' # name @ [NUL, NUL] @ rest,
              [(fd c, ''Unsupported command'' @ [CHR 0x0A])])) \<and>
    process_msg st j (''/nick Bob'' @ [NUL] @ rest) =
      Inr (st\<lparr>clients := (clients st)(j \<mapsto> c\<lparr>nick := ''Bob''\<rparr>)\<rparr>,
           ''/nick'' @ [NUL] @ ''Bob'' @ [NUL] @ rest, []) \<and>
    process_msg st j (''/nick'' @ [NUL] @ rest) =
      Inr (st, ''/nick'' @ [NUL] @ rest, [(fd c, ''Unsupported command'' @ [CHR 0x0A])]) \<and>
    process_msg st j (''/bogus arg'' @ [NUL] @ rest) =
      Inr (st, ''/bogus'' @ [NUL] @ ''arg'' @ [NUL] @ rest,
           [(fd c, ''Unsupported command'' @ [CHR 0x0A])])"
proof -
  have 7: "process_msg st j (''/nick Bob'' @ [NUL] @ rest) =
      Inr (st\<lparr>clients := (clients st)(j \<mapsto> c\<lparr>nick := ''Bob''\<rparr>)\<rparr>,
           ''/nick'' @ [NUL] @ ''Bob'' @ [NUL] @ rest, [])"
    using c by (simp add: process_msg_def bindF_def)
  have 8: "process_msg st j (''/nick'' @ [NUL] @ rest) =
      Inr (st, ''/nick'' @ [NUL] @ rest, [(fd c, ''Unsupported command'' @ [CHR 0x0A])])"
    using c by (simp add: process_msg_def bindF_def)
  have 9: "process_msg st j (''/bogus arg'' @ [NUL] @ rest) =
      Inr (st, ''/bogus'' @ [NUL] @ ''arg'' @ [NUL] @ rest,
           [(fd c, ''Unsupported command'' @ [CHR 0x0A])])"
    using c by (simp add: process_msg_def bindF_def)
  have nick: "plain ''nick''" "CHR '' '' \<notin> set ''nick''"
    and bogus: "plain ''bogus''" "CHR '' '' \<notin> set ''bogus''" "''bogus'' \<noteq> ''nick''"
    and bob: "plain ''Bob''" and arg: "plain ''arg''"
    by (simp_all add: plain_def)
  have 1: "process_msg st j (''/nick Bob'' @ [CHR 0x0A, NUL] @ rest) =
      Inr (st\<lparr>clients := (clients st)(j \<mapsto> c\<lparr>nick := ''Bob''\<rparr>)\<rparr>,
           ''/nick'' @ [NUL] @ ''Bob'' @ [NUL, NUL] @ rest, [])"
    using process_command_with_arg [OF c nick bob, of rest] by simp
  have 2: "process_msg st j (''/nick'' @ [CHR 0x0A, NUL] @ rest) =
      Inr (st, ''/nick'' @ [NUL, NUL] @ rest, [(fd c, ''Unsupported command'' @ [CHR 0x0A])])"
    using process_command_no_arg [OF c nick, of rest] by simp
  have 3: "process_msg st j (''/bogus arg'' @ [CHR 0x0A, NUL] @ rest) =
      Inr (st, ''/bogus'' @ [NUL] @ ''arg'' @ [NUL, NUL] @ rest,
           [(fd c, ''Unsupported command'' @ [CHR 0x0A])])"
    using process_command_with_arg [OF c bogus(1,2) arg, of rest] by simp
  have 4: "process_msg st j (''/nick '' @ arg @ [CHR 0x0A, NUL] @ rest) =
         Inr (st\<lparr>clients := (clients st)(j \<mapsto> c\<lparr>nick := arg\<rparr>)\<rparr>,
              ''/nick'' @ [NUL] @ arg @ [NUL, NUL] @ rest, [])" if "plain arg"
    using process_command_with_arg [OF c nick that, of rest] by simp
  have 5: "process_msg st j (CHR ''/'' # name @ CHR '' '' # arg @ [CHR 0x0A, NUL] @ rest) =
         Inr (st, CHR ''/'' # name @ NUL # arg @ [NUL, NUL] @ rest,
              [(fd c, ''Unsupported command'' @ [CHR 0x0A])])"
    if "plain name \<and> CHR '' '' \<notin> set name \<and> name \<noteq> ''nick'' \<and> plain arg"
    using process_command_with_arg [OF c, of name arg rest] that by simp
  have 6: "process_msg st j (CHR ''/'' # name @ [CHR 0x0A, NUL] @ rest) =
         Inr (st, CHR ''/'' # name @ [NUL, NUL] @ rest,
              [(fd c, ''Unsupported command'' @ [CHR 0x0A])])"
    if "plain name \<and> CHR '' '' \<notin> set name"
    using process_command_no_arg [OF c, of name rest] that by simp
  from 1 2 3 4 5 6 7 8 9 show ?thesis by blast
qed

theorem nick_command_and_unsupported_witness:
  "clients \<lparr>serversock = 3, numclients = 1, maxclient = 4,
      clients = (\<lambda>_. None)
        (4 \<mapsto> \<lparr>fd = 4, nick = ''user:4'', read_cb = circbuf_alloc (replicate 128 NUL) 128\<rparr>)\<rparr> 4
     = Some \<lparr>fd = 4, nick = ''user:4'', read_cb = circbuf_alloc (replicate 128 NUL) 128\<rparr> \<and>
   plain ''Zed 2'' \<and> plain ''join'' \<and> CHR '' '' \<notin> set ''join'' \<and> ''join'' \<noteq> ''nick'' \<and>
   process_msg \<lparr>serversock = 3, numclients = 1, maxclient = 4,
      clients = (\<lambda>_. None)
        (4 \<mapsto> \<lparr>fd = 4, nick = ''user:4'', read_cb = circbuf_alloc (replicate 128 NUL) 128\<rparr>)\<rparr> 4
      (''/nick Zed 2'' @ [CHR 0x0A, NUL] @ ''stale'')
     = Inr (\<lparr>serversock = 3, numclients = 1, maxclient = 4,
      clients = (\<lambda>_. None)
        (4 \<mapsto> \<lparr>fd = 4, nick = ''Zed 2'', read_cb = circbuf_alloc (replicate 128 NUL) 128\<rparr>)\<rparr>,
        ''/nick'' @ [NUL] @ ''Zed 2'' @ [NUL, NUL] @ ''stale'', []) \<and>
   process_msg \<lparr>serversock = 3, numclients = 1, maxclient = 4,
      clients = (\<lambda>_. None)
        (4 \<mapsto> \<lparr>fd = 4, nick = ''user:4'', read_cb = circbuf_alloc (replicate 128 NUL) 128\<rparr>)\<rparr> 4
      (''/join Zed 2'' @ [CHR 0x0A, NUL] @ ''stale'')
     = Inr (\<lparr>serversock = 3, numclients = 1, maxclient = 4,
      clients = (\<lambda>_. None)
        (4 \<mapsto> \<lparr>fd = 4, nick = ''user:4'', read_cb = circbuf_alloc (replicate 128 NUL) 128\<rparr>)\<rparr>,
        ''/join'' @ [NUL] @ ''Zed 2'' @ [NUL, NUL] @ ''stale'',
        [(4, ''Unsupported command'' @ [CHR 0x0A])]) \<and>
   process_msg \<lparr>serversock = 3, numclients = 1, maxclient = 4,
      clients = (\<lambda>_. None)
        (4 \<mapsto> \<lparr>fd = 4, nick = ''user:4'', read_cb = circbuf_alloc (replicate 128 NUL) 128\<rparr>)\<rparr> 4
      (''/join'' @ [CHR 0x0A, NUL] @ ''stale'')
     = Inr (\<lparr>serversock = 3, numclients = 1, maxclient = 4,
      clients = (\<lambda>_. None)
        (4 \<mapsto> \<lparr>fd = 4, nick = ''user:4'', read_cb = circbuf_alloc (replicate 128 NUL) 128\<rparr>)\<rparr>,
        ''/join'' @ [NUL, NUL] @ ''stale'',
        [(4, ''Unsupported command'' @ [CHR 0x0A])])"
proof -
  let ?c = "\<lparr>fd = 4, nick = ''user:4'', read_cb = circbuf_alloc (replicate 128 NUL) 128\<rparr>"
  let ?st = "\<lparr>serversock = 3, numclients = 1, maxclient = 4, clients = (\<lambda>_. None)(4 \<mapsto> ?c)\<rparr>"
  have c: "clients ?st 4 = Some ?c" by simp
  have p: "plain ''Zed 2''" "plain ''join''" "CHR '' '' \<notin> set ''join''" "''join'' \<noteq> ''nick''"
    by (simp_all add: plain_def)
  from nick_command_and_unsupported [OF c, of "''stale''" "''Zed 2''" "''join''"] c p
  show ?thesis by simp
qed

text \<open>
  Claim C10. A pop on an empty buffer leaves the destination byte as it was. For the
  128-byte buffer of a client and the 128-byte scratch array: when the stored bytes
  hold a separator, the round pops the bytes up to the first separator and no more
  (the bytes that leave the buffer are as many as the iterations of the loop, so every
  pop has succeeded), it ends with the separator stored last, and the terminator is
  written inside the array. When the stored bytes hold no separator, the round pops
  all of them and then reads the stale bytes of the scratch array that follow: it
  ends at the first stale separator, if one comes before the last byte of the array,
  and otherwise runs out of the array.
\<close>

theorem extraction_round_pops:
  assumes wf: "cb_wf cb" and sz: "size_cb cb = READBUF_SIZE"
    and lr: "length rb = nat READBUF_SIZE"
  shows
   "(read_idx cb = write_idx cb \<longrightarrow> circbuf_pop cb d = (0, cb, d)) \<and>
    (\<forall>ys zs. contents cb = ys @ MSG_SEP # zs \<and> MSG_SEP \<notin> set ys \<longrightarrow>
       extract_msg cb rb =
         Inr (cb_drop (length ys + 1) cb, ys @ MSG_SEP # NUL # drop (length ys + 2) rb,
              length ys + 1) \<and>
       length ys + 1 < nat READBUF_SIZE \<and>
       contents (cb_drop (length ys + 1) cb) = zs \<and>
       circbuf_len cb - circbuf_len (cb_drop (length ys + 1) cb) = int (length ys + 1)) \<and>
    (MSG_SEP \<notin> set (contents cb) \<longrightarrow>
       (\<forall>us vs. drop (length (contents cb)) rb = us @ MSG_SEP # vs \<and> MSG_SEP \<notin> set us \<and>
            length (contents cb) + length us + 1 < nat READBUF_SIZE \<longrightarrow>
          extract_msg cb rb =
            Inr (cb_drop (length (contents cb)) cb,
                 (contents cb @ us @ MSG_SEP # vs)[length (contents cb) + length us + 1 := NUL],
                 length (contents cb) + length us + 1)) \<and>
       (MSG_SEP \<notin> set (take (nat READBUF_SIZE - 1 - length (contents cb))
                          (drop (length (contents cb)) rb)) \<longrightarrow>
          extract_msg cb rb = Inl OutOfBounds))"
proof -
  have cap: "length (contents cb) \<le> nat READBUF_SIZE - 1"
    using circbuf_len_range [OF wf] sz length_contents_int [OF wf] by simp
  have a: "read_idx cb = write_idx cb \<longrightarrow> circbuf_pop cb d = (0, cb, d)"
    by (simp add: circbuf_pop_def)
  have b: "extract_msg cb rb =
         Inr (cb_drop (length ys + 1) cb, ys @ MSG_SEP # NUL # drop (length ys + 2) rb,
              length ys + 1) \<and>
       length ys + 1 < nat READBUF_SIZE \<and>
       contents (cb_drop (length ys + 1) cb) = zs \<and>
       circbuf_len cb - circbuf_len (cb_drop (length ys + 1) cb) = int (length ys + 1)"
    if h: "contents cb = ys @ MSG_SEP # zs \<and> MSG_SEP \<notin> set ys" for ys zs
  proof -
    from h have c: "contents cb = ys @ MSG_SEP # zs" and ys: "MSG_SEP \<notin> set ys" by simp_all
    have l: "length ys + 1 < length rb"
      using cap c lr by (simp add: READBUF_SIZE_def)
    have k: "int (length ys + 1) \<le> circbuf_len cb"
      using length_contents_int [OF wf] c by simp
    from extract_msg_sep [OF wf c ys l] l lr contents_cb_drop [OF wf k] len_cb_drop [OF wf k] c
    show ?thesis by simp
  qed
  have c1: "extract_msg cb rb =
            Inr (cb_drop (length (contents cb)) cb,
                 (contents cb @ us @ MSG_SEP # vs)[length (contents cb) + length us + 1 := NUL],
                 length (contents cb) + length us + 1)"
    if n: "MSG_SEP \<notin> set (contents cb)"
      and h: "drop (length (contents cb)) rb = us @ MSG_SEP # vs \<and> MSG_SEP \<notin> set us \<and>
            length (contents cb) + length us + 1 < nat READBUF_SIZE" for us vs
    using extract_msg_stale_sep [OF wf refl n, of rb us vs] h lr by simp
  have c2: "extract_msg cb rb = Inl OutOfBounds"
    if n: "MSG_SEP \<notin> set (contents cb)"
      and h: "MSG_SEP \<notin> set (take (nat READBUF_SIZE - 1 - length (contents cb))
                          (drop (length (contents cb)) rb))"
    using extract_msg_stale_none [OF wf refl n, of rb] h lr cap by simp
  from a b c1 c2 show ?thesis by blast
qed

theorem extraction_round_pops_witness:
  "cb_wf \<lparr>buf = ''hi'' @ [MSG_SEP] @ ''yo'' @ replicate 123 NUL, write_idx = 5, read_idx = 0,
           size_cb = 128\<rparr> \<and>
   contents \<lparr>buf = ''hi'' @ [MSG_SEP] @ ''yo'' @ replicate 123 NUL, write_idx = 5, read_idx = 0,
           size_cb = 128\<rparr> = ''hi'' @ MSG_SEP # ''yo'' \<and>
   extract_msg \<lparr>buf = ''hi'' @ [MSG_SEP] @ ''yo'' @ replicate 123 NUL, write_idx = 5, read_idx = 0,
           size_cb = 128\<rparr> (replicate 128 (CHR ''.''))
     = Inr (\<lparr>buf = ''hi'' @ [MSG_SEP] @ ''yo'' @ replicate 123 NUL, write_idx = 5, read_idx = 3,
           size_cb = 128\<rparr>, ''hi'' @ [MSG_SEP, NUL] @ replicate 124 (CHR ''.''), 3) \<and>
   contents \<lparr>buf = ''abc'' @ replicate 125 NUL, write_idx = 3, read_idx = 0, size_cb = 128\<rparr> = ''abc'' \<and>
   extract_msg \<lparr>buf = ''abc'' @ replicate 125 NUL, write_idx = 3, read_idx = 0, size_cb = 128\<rparr>
       (''old'' @ ''er'' @ MSG_SEP # replicate 122 (CHR ''.''))
     = Inr (\<lparr>buf = ''abc'' @ replicate 125 NUL, write_idx = 3, read_idx = 3, size_cb = 128\<rparr>,
            ''abc'' @ ''er'' @ [MSG_SEP, NUL] @ replicate 121 (CHR ''.''), 6) \<and>
   extract_msg \<lparr>buf = ''abc'' @ replicate 125 NUL, write_idx = 3, read_idx = 0, size_cb = 128\<rparr>
       (replicate 128 (CHR ''.'')) = Inl OutOfBounds"
proof -
  let ?A = "\<lparr>buf = ''hi'' @ [MSG_SEP] @ ''yo'' @ replicate 123 NUL, write_idx = 5, read_idx = 0,
           size_cb = 128\<rparr>"
  let ?B = "\<lparr>buf = ''abc'' @ replicate 125 NUL, write_idx = 3, read_idx = 0, size_cb = 128\<rparr>"
  let ?dots = "replicate 128 (CHR ''.'')"
  let ?old = "''old'' @ ''er'' @ MSG_SEP # replicate 122 (CHR ''.'')"
  have wfA: "cb_wf ?A" and wfB: "cb_wf ?B" by (simp_all add: cb_wf_def)
  have sz: "size_cb ?A = READBUF_SIZE" "size_cb ?B = READBUF_SIZE" by (simp_all add: READBUF_SIZE_def)
  have lr: "length ?dots = nat READBUF_SIZE" "length ?old = nat READBUF_SIZE"
    by (simp_all add: READBUF_SIZE_def)
  have cA: "contents ?A = ''hi'' @ MSG_SEP # ''yo''" by code_simp
  have cB: "contents ?B = ''abc''" by code_simp
  have nA: "MSG_SEP \<notin> set ''hi''" and ner: "MSG_SEP \<notin> set ''er''"
    by (simp_all add: MSG_SEP_def)
  have nB: "MSG_SEP \<notin> set (contents ?B)"
    by (simp only: cB) (simp add: MSG_SEP_def)
  have r122: "(replicate 122 (CHR ''.''))[0 := NUL] = NUL # replicate 121 (CHR ''.'')"
    by code_simp
  have "extract_msg ?A ?dots =
      Inr (cb_drop (length ''hi'' + 1) ?A, ''hi'' @ MSG_SEP # NUL # drop (length ''hi'' + 2) ?dots,
           length ''hi'' + 1)"
    using extraction_round_pops [OF wfA sz(1) lr(1), of NUL] cA nA by blast
  then have 1: "extract_msg ?A ?dots =
      Inr (\<lparr>buf = ''hi'' @ [MSG_SEP] @ ''yo'' @ replicate 123 NUL, write_idx = 5, read_idx = 3,
           size_cb = 128\<rparr>, ''hi'' @ [MSG_SEP, NUL] @ replicate 124 (CHR ''.''), 3)"
    by (simp add: cb_drop_def)
  have dr: "drop (length (contents ?B)) ?old = ''er'' @ MSG_SEP # replicate 122 (CHR ''.'')"
    by (simp only: cB) simp
  have lim: "length (contents ?B) + length ''er'' + 1 < nat READBUF_SIZE"
    by (simp only: cB) (simp add: READBUF_SIZE_def)
  have "extract_msg ?B ?old =
      Inr (cb_drop (length (contents ?B)) ?B,
           (contents ?B @ ''er'' @ MSG_SEP # replicate 122 (CHR ''.''))
             [length (contents ?B) + length ''er'' + 1 := NUL],
           length (contents ?B) + length ''er'' + 1)"
    using extraction_round_pops [OF wfB sz(2) lr(2), of NUL] nB dr ner lim by blast
  then have "extract_msg ?B ?old =
      Inr (cb_drop (length ''abc'') ?B,
           (''abc'' @ ''er'' @ MSG_SEP # replicate 122 (CHR ''.''))[length ''abc'' + length ''er'' + 1 := NUL],
           length ''abc'' + length ''er'' + 1)"
    by (simp only: cB)
  then have 2: "extract_msg ?B ?old =
      Inr (\<lparr>buf = ''abc'' @ replicate 125 NUL, write_idx = 3, read_idx = 3, size_cb = 128\<rparr>,
            ''abc'' @ ''er'' @ [MSG_SEP, NUL] @ replicate 121 (CHR ''.''), 6)"
    by (simp add: cb_drop_def r122)
  have none: "MSG_SEP \<notin> set (take (nat READBUF_SIZE - 1 - length (contents ?B))
      (drop (length (contents ?B)) ?dots))"
    by (simp only: cB) (simp add: READBUF_SIZE_def MSG_SEP_def)
  have 3: "extract_msg ?B ?dots = Inl OutOfBounds"
    using extraction_round_pops [OF wfB sz(2) lr(1), of NUL] nB none by blast
  from wfA cA 1 cB 2 3 show ?thesis by blast
qed

section \<open>The client branch\<close>

lemma count_sep_filter: "count_sep xs = int (length (filter (\<lambda>x. x = MSG_SEP) xs))"
  by (induction xs) simp_all

lemma readable_push:
  assumes c: "clients st j = Some c" and wf: "cb_wf (read_cb c)"
    and sz: "size_cb (read_cb c) = READBUF_SIZE"
    and nz: "data \<noteq> []" and fit: "int (length data) \<le> circbuf_space_left (read_cb c)"
  shows "client_readable st j rb (ReadBytes data) =
     (if count_sep data > 0 \<or>
         circbuf_space_left (snd (circbuf_push_from_linear (read_cb c) data (int (length data)))) \<le> 1
      then rounds (nat (if count_sep data = 0 then 1 else count_sep data))
             (st\<lparr>clients := (clients st)(j \<mapsto>
                c\<lparr>read_cb := snd (circbuf_push_from_linear (read_cb c) data (int (length data)))\<rparr>)\<rparr>)
             j rb
      else Inr (st\<lparr>clients := (clients st)(j \<mapsto>
                c\<lparr>read_cb := snd (circbuf_push_from_linear (read_cb c) data (int (length data)))\<rparr>)\<rparr>,
                rb, []))"
proof -
  have "int (length data) < READBUF_SIZE"
    using fit circbuf_len_range [OF wf] sz by (simp add: circbuf_space_left_def)
  moreover have "0 < int (length data)" using nz by simp
  ultimately show ?thesis
    using c by (simp add: client_readable_def Let_def)
qed

text \<open>
  Claim C1. When the buffer of the client holds no separator, the bytes read hold
  exactly \<open>k \<ge> 1\<close> separators and fit the remaining capacity, the client branch
  returns with exactly \<open>k\<close> extracted messages, each ending with a separator and
  holding no other; the messages in order, followed by what the buffer then holds, are
  the bytes held before followed by the bytes read, and what the buffer then holds
  has no separator: the bytes after the last separator stay in the buffer.
\<close>

theorem framing_extracts_k_messages:
  assumes c: "clients st j = Some c" and wf: "cb_wf (read_cb c)"
    and sz: "size_cb (read_cb c) = READBUF_SIZE" and lr: "length rb = nat READBUF_SIZE"
    and nosep: "MSG_SEP \<notin> set (contents (read_cb c))"
    and fit: "int (length data) \<le> circbuf_space_left (read_cb c)"
    and k: "length (filter (\<lambda>x. x = MSG_SEP) data) = k" "1 \<le> k"
  shows "\<exists>st' rb' tr c'.
           client_readable st j rb (ReadBytes data) = Inr (st', rb', tr) \<and>
           length tr = k \<and> (\<forall>m \<in> set (map fst tr). is_msg m) \<and>
           clients st' j = Some c' \<and>
           concat (map fst tr) @ contents (read_cb c') = contents (read_cb c) @ data \<and>
           MSG_SEP \<notin> set (contents (read_cb c'))"
proof -
  let ?cb = "read_cb c"
  let ?cb1 = "snd (circbuf_push_from_linear ?cb data (int (length data)))"
  let ?st1 = "st\<lparr>clients := (clients st)(j \<mapsto> c\<lparr>read_cb := ?cb1\<rparr>)\<rparr>"
  have cs: "count_sep data = int k" using k by (simp add: count_sep_filter)
  have nz: "data \<noteq> []" using k by auto
  note p = push_from_linear_contents [OF wf _ _ fit, of data]
  have c1: "contents ?cb1 = contents ?cb @ data" using p(2) by simp
  have wf1: "cb_wf ?cb1" using p(4) by simp
  have r: "client_readable st j rb (ReadBytes data) = rounds k ?st1 j rb"
    using readable_push [OF c wf sz nz fit, of rb] cs k(2) by simp
  have "count_sep (contents ?cb @ data) = int k"
    by (simp add: count_sep_append count_sep_none [OF nosep] cs)
  from split_msgs [OF this] obtain msgs res where s: "contents ?cb @ data = concat msgs @ res"
    "length msgs = k" "\<forall>m \<in> set msgs. is_msg m" "MSG_SEP \<notin> set res" by blast
  have cl: "clients ?st1 j = Some (c\<lparr>read_cb := ?cb1\<rparr>)" by simp
  have len: "length (contents (read_cb (c\<lparr>read_cb := ?cb1\<rparr>))) < length rb"
    using circbuf_len_range [OF wf1] length_contents_int [OF wf1] p(5) sz lr
    by (simp add: READBUF_SIZE_def)
  from rounds_msgs [OF cl _ _ s(3) len, of res] wf1 c1 s(1)
  obtain st' rb' tr c' where "rounds (length msgs) ?st1 j rb = Inr (st', rb', tr)"
    "map fst tr = msgs" "clients st' j = Some c'" "contents (read_cb c') = res"
    by auto
  with r s have "client_readable st j rb (ReadBytes data) = Inr (st', rb', tr) \<and>
           length tr = k \<and> (\<forall>m \<in> set (map fst tr). is_msg m) \<and>
           clients st' j = Some c' \<and>
           concat (map fst tr) @ contents (read_cb c') = contents (read_cb c) @ data \<and>
           MSG_SEP \<notin> set (contents (read_cb c'))"
    by (auto simp: length_map [symmetric] simp del: length_map)
  then show ?thesis by blast
qed

theorem framing_extracts_k_messages_witness:
  "clients \<lparr>serversock = 3, numclients = 2, maxclient = 6,
      clients = (\<lambda>_. None)
        (4 \<mapsto> \<lparr>fd = 4, nick = ''user:4'',
               read_cb = \<lparr>buf = ''he'' @ replicate 126 NUL, write_idx = 2, read_idx = 0, size_cb = 128\<rparr>\<rparr>,
         6 \<mapsto> \<lparr>fd = 6, nick = ''Bob'', read_cb = circbuf_alloc (replicate 128 NUL) 128\<rparr>)\<rparr> 4
     = Some \<lparr>fd = 4, nick = ''user:4'',
               read_cb = \<lparr>buf = ''he'' @ replicate 126 NUL, write_idx = 2, read_idx = 0, size_cb = 128\<rparr>\<rparr> \<and>
   cb_wf \<lparr>buf = ''he'' @ replicate 126 NUL, write_idx = 2, read_idx = 0, size_cb = 128\<rparr> \<and>
   contents \<lparr>buf = ''he'' @ replicate 126 NUL, write_idx = 2, read_idx = 0, size_cb = 128\<rparr> = ''he'' \<and>
   length (filter (\<lambda>x. x = MSG_SEP) (''llo'' @ [MSG_SEP] @ ''/nick Zed'' @ [MSG_SEP] @ ''yo'')) = 2 \<and>
   (\<exists>st' rb' tr c'.
      client_readable \<lparr>serversock = 3, numclients = 2, maxclient = 6,
        clients = (\<lambda>_. None)
          (4 \<mapsto> \<lparr>fd = 4, nick = ''user:4'',
                 read_cb = \<lparr>buf = ''he'' @ replicate 126 NUL, write_idx = 2, read_idx = 0, size_cb = 128\<rparr>\<rparr>,
           6 \<mapsto> \<lparr>fd = 6, nick = ''Bob'', read_cb = circbuf_alloc (replicate 128 NUL) 128\<rparr>)\<rparr>
        4 (replicate 128 NUL)
        (ReadBytes (''llo'' @ [MSG_SEP] @ ''/nick Zed'' @ [MSG_SEP] @ ''yo'')) = Inr (st', rb', tr) \<and>
      tr = [(''hello'' @ [MSG_SEP], [(6, ''user:4> hello'' @ [MSG_SEP])]),
            (''/nick Zed'' @ [MSG_SEP], [])] \<and>
      clients st' 4 = Some c' \<and> contents (read_cb c') = ''yo'' \<and> nick c' = ''Zed'')"
proof -
  let ?cb = "\<lparr>buf = ''he'' @ replicate 126 NUL, write_idx = 2, read_idx = 0, size_cb = 128\<rparr>"
  let ?c = "\<lparr>fd = 4, nick = ''user:4'', read_cb = ?cb\<rparr>"
  let ?st = "\<lparr>serversock = 3, numclients = 2, maxclient = 6,
      clients = (\<lambda>_. None)
        (4 \<mapsto> ?c,
         6 \<mapsto> \<lparr>fd = 6, nick = ''Bob'', read_cb = circbuf_alloc (replicate 128 NUL) 128\<rparr>)\<rparr>"
  let ?data = "''llo'' @ [MSG_SEP] @ ''/nick Zed'' @ [MSG_SEP] @ ''yo''"
  let ?rb = "replicate 128 NUL"
  have c: "clients ?st 4 = Some ?c" by simp
  have wf: "cb_wf (read_cb ?c)" by (simp add: cb_wf_def)
  have sz: "size_cb (read_cb ?c) = READBUF_SIZE" by (simp add: READBUF_SIZE_def)
  have lr: "length ?rb = nat READBUF_SIZE" by (simp add: READBUF_SIZE_def)
  have cn: "contents ?cb = ''he''" by code_simp
  have nosep: "MSG_SEP \<notin> set (contents (read_cb ?c))"
    by (simp only: client.simps cn) (simp add: MSG_SEP_def)
  have fit: "int (length ?data) \<le> circbuf_space_left (read_cb ?c)"
    by (simp add: circbuf_space_left_def circbuf_len_def)
  have k: "length (filter (\<lambda>x. x = MSG_SEP) ?data) = 2" "(1::nat) \<le> 2"
    by (simp_all add: MSG_SEP_def)
  from framing_extracts_k_messages [OF c wf sz lr nosep fit k]
  obtain st' rb' tr c' where r: "client_readable ?st 4 ?rb (ReadBytes ?data) = Inr (st', rb', tr)"
    and c': "clients st' 4 = Some c'" by blast
  have tr: "(case client_readable ?st 4 ?rb (ReadBytes ?data) of
        Inl e \<Rightarrow> False
      | Inr (st', rb', tr) \<Rightarrow>
          tr = [(''hello'' @ [MSG_SEP], [(6, ''user:4> hello'' @ [MSG_SEP])]),
                (''/nick Zed'' @ [MSG_SEP], [])] \<and>
          map_option (\<lambda>c. (contents (read_cb c), nick c)) (clients st' 4) = Some (''yo'', ''Zed''))"
    by code_simp
  from tr r c' have "tr = [(''hello'' @ [MSG_SEP], [(6, ''user:4> hello'' @ [MSG_SEP])]),
            (''/nick Zed'' @ [MSG_SEP], [])] \<and> contents (read_cb c') = ''yo'' \<and> nick c' = ''Zed''"
    by simp
  with r c' have "\<exists>st' rb' tr c'.
      client_readable ?st 4 ?rb (ReadBytes ?data) = Inr (st', rb', tr) \<and>
      tr = [(''hello'' @ [MSG_SEP], [(6, ''user:4> hello'' @ [MSG_SEP])]),
            (''/nick Zed'' @ [MSG_SEP], [])] \<and>
      clients st' 4 = Some c' \<and> contents (read_cb c') = ''yo'' \<and> nick c' = ''Zed''"
    by blast
  with c wf cn k(1) show ?thesis by simp
qed

text \<open>
  Claim C2. The claim does not hold of the code. When the buffer of the client holds
  no separator, the bytes read hold none, they are no more than \<open>main\<close> has asked
  \<open>read\<close> for (the remaining capacity minus one) and they leave a remaining capacity
  of at most 1, the client branch runs one extraction round on the 126 bytes that the
  buffer then holds. The round pops them and does not stop there: the result of
  \<open>circbuf_pop\<close> is discarded, the loop goes on through the stale bytes of the
  scratch array, and unless the byte at index 126 is a stale separator it leaves the
  array. No message comes out, where the comment at the loop says that the whole
  buffer is sent once.
\<close>

theorem forced_flush_runs_out_of_readbuf:
  assumes c: "clients st j = Some c" and wf: "cb_wf (read_cb c)"
    and sz: "size_cb (read_cb c) = READBUF_SIZE" and lr: "length rb = nat READBUF_SIZE"
    and nosep: "MSG_SEP \<notin> set (contents (read_cb c))"
    and nz: "data \<noteq> []" and zero: "MSG_SEP \<notin> set data"
    and rd: "int (length data) \<le> read_count (read_cb c)"
    and thr: "circbuf_space_left (snd (circbuf_push_from_linear (read_cb c) data (int (length data)))) \<le> 1"
    and stale: "rb ! 126 \<noteq> MSG_SEP"
  shows "client_readable st j rb (ReadBytes data) = Inl OutOfBounds"
proof -
  let ?cb = "read_cb c"
  let ?cb1 = "snd (circbuf_push_from_linear ?cb data (int (length data)))"
  let ?st1 = "st\<lparr>clients := (clients st)(j \<mapsto> c\<lparr>read_cb := ?cb1\<rparr>)\<rparr>"
  have fit: "int (length data) \<le> circbuf_space_left ?cb" using rd by (simp add: read_count_def)
  note p = push_from_linear_contents [OF wf _ _ fit, of data]
  have c1: "contents ?cb1 = contents ?cb @ data" using p(2) by simp
  have wf1: "cb_wf ?cb1" using p(4) by simp
  have sz1: "size_cb ?cb1 = READBUF_SIZE" using p(5) sz by simp
  have "circbuf_space_left ?cb1 = 1" using p(3) rd thr by (simp add: read_count_def)
  then have l1: "circbuf_len ?cb1 = 126"
    using sz1 by (simp add: circbuf_space_left_def READBUF_SIZE_def)
  then have len: "length (contents ?cb @ data) = 126"
    using length_contents_int [OF wf1] c1 by simp
  have cs: "count_sep data = 0" by (rule count_sep_none [OF zero])
  have r: "client_readable st j rb (ReadBytes data) = rounds (Suc 0) ?st1 j rb"
    using readable_push [OF c wf sz nz fit, of rb] cs thr by simp
  have ns: "MSG_SEP \<notin> set (contents ?cb @ data)" using nosep zero by simp
  have l: "length (contents ?cb @ data) \<le> length rb"
    using len lr by (simp add: READBUF_SIZE_def)
  have lrb: "length rb = 128" using lr by (simp add: READBUF_SIZE_def)
  have "take (length rb - 1 - length (contents ?cb @ data)) (drop (length (contents ?cb @ data)) rb)
      = [rb ! 126]"
    using lrb by (simp only: len) (simp add: take_Suc_conv_app_nth)
  with stale have none: "MSG_SEP \<notin> set (take (length rb - 1 - length (contents ?cb @ data))
      (drop (length (contents ?cb @ data)) rb))"
    by simp
  have "extract_msg ?cb1 rb = Inl OutOfBounds"
    by (rule extract_msg_stale_none [OF wf1 c1 ns l none])
  then have "rounds (Suc 0) ?st1 j rb = Inl OutOfBounds"
    by (simp add: bindF_def)
  with r show ?thesis by simp
qed

theorem forced_flush_runs_out_of_readbuf_witness:
  "clients \<lparr>serversock = 3, numclients = 1, maxclient = 4,
      clients = (\<lambda>_. None)
        (4 \<mapsto> \<lparr>fd = 4, nick = ''user:4'', read_cb = circbuf_alloc (replicate 128 NUL) 128\<rparr>)\<rparr> 4
     = Some \<lparr>fd = 4, nick = ''user:4'', read_cb = circbuf_alloc (replicate 128 NUL) 128\<rparr> \<and>
   cb_wf (circbuf_alloc (replicate 128 NUL) 128) \<and>
   contents (circbuf_alloc (replicate 128 NUL) 128) = [] \<and>
   MSG_SEP \<notin> set (replicate 126 (CHR ''a'')) \<and>
   read_count (circbuf_alloc (replicate 128 NUL) 128) = 126 \<and>
   int (length (replicate 126 (CHR ''a''))) \<le> read_count (circbuf_alloc (replicate 128 NUL) 128) \<and>
   circbuf_space_left (snd (circbuf_push_from_linear (circbuf_alloc (replicate 128 NUL) 128)
      (replicate 126 (CHR ''a'')) (int (length (replicate 126 (CHR ''a'')))))) = 1 \<and>
   replicate 128 NUL ! 126 \<noteq> MSG_SEP \<and>
   client_readable \<lparr>serversock = 3, numclients = 1, maxclient = 4,
      clients = (\<lambda>_. None)
        (4 \<mapsto> \<lparr>fd = 4, nick = ''user:4'', read_cb = circbuf_alloc (replicate 128 NUL) 128\<rparr>)\<rparr>
     4 (replicate 128 NUL) (ReadBytes (replicate 126 (CHR ''a''))) = Inl OutOfBounds"
proof -
  let ?cb = "circbuf_alloc (replicate 128 NUL) 128"
  let ?c = "\<lparr>fd = 4, nick = ''user:4'', read_cb = ?cb\<rparr>"
  let ?st = "\<lparr>serversock = 3, numclients = 1, maxclient = 4, clients = (\<lambda>_. None)(4 \<mapsto> ?c)\<rparr>"
  let ?data = "replicate 126 (CHR ''a'')"
  let ?rb = "replicate 128 NUL"
  have c: "clients ?st 4 = Some ?c" by simp
  have wf0: "cb_wf ?cb" by (simp add: alloc_wf)
  have wf: "cb_wf (read_cb ?c)" using wf0 by simp
  have sz: "size_cb (read_cb ?c) = READBUF_SIZE" by (simp add: READBUF_SIZE_def circbuf_alloc_def)
  have lr: "length ?rb = nat READBUF_SIZE" by (simp add: READBUF_SIZE_def)
  have cn: "contents ?cb = []"
    using contents_Nil_iff [OF wf0] by (simp add: circbuf_alloc_def)
  have nosep: "MSG_SEP \<notin> set (contents (read_cb ?c))" by (simp add: cn)
  have nz: "?data \<noteq> []" by simp
  have zero: "MSG_SEP \<notin> set ?data" by (simp add: MSG_SEP_def)
  have rc: "read_count ?cb = 126"
    by (simp add: read_count_def circbuf_space_left_def circbuf_len_def circbuf_alloc_def)
  have rd0: "int (length ?data) \<le> read_count ?cb" by (simp add: rc)
  have rd: "int (length ?data) \<le> read_count (read_cb ?c)" by (simp add: rc)
  have fit: "int (length ?data) \<le> circbuf_space_left ?cb"
    using rc by (simp add: read_count_def)
  have sp: "circbuf_space_left (snd (circbuf_push_from_linear ?cb ?data (int (length ?data)))) = 1"
    using push_from_linear_contents(3) [OF wf0 _ _ fit] rc by (simp add: read_count_def)
  then have thr: "circbuf_space_left
      (snd (circbuf_push_from_linear (read_cb ?c) ?data (int (length ?data)))) \<le> 1"
    by simp
  have stale: "?rb ! 126 \<noteq> MSG_SEP" by (simp add: MSG_SEP_def)
  have "client_readable ?st 4 ?rb (ReadBytes ?data) = Inl OutOfBounds"
    by (rule forced_flush_runs_out_of_readbuf [OF c wf sz lr nosep nz zero rd thr stale])
  with c wf0 cn zero rc rd0 sp stale show ?thesis by blast
qed

end
